theory Spec2Isabelle
  imports Complex_Main "HOL-Library.Multiset" "HOL-Library.Char_ord" "HOL-Library.List_Lexorder"
begin

section \<open>The video game sales dashboard (dash_videogame.py)\<close>

text \<open>
  The script reads a table of video game sales, derives three sidebar filters from it,
  selects the rows matching the filters and computes the data of each panel.
  Sales figures are modelled as exact reals (the script sums 64-bit floats; rounding is
  not modelled), a missing Year (NaN) as \<open>None\<close>, and every raise as a value.
\<close>

subsection \<open>Data model\<close>

text \<open>One row of cleaned_vgsales.csv.\<close>

record game =
  Name :: string
  Platform :: string
  Year :: "int option"
  Genre :: string
  Publisher :: string
  NA_Sales :: real
  EU_Sales :: real
  JP_Sales :: real
  Other_Sales :: real
  Global_Sales :: real

text \<open>
  A data frame is the list of its rows in order, each with its index label.
  Selecting rows keeps the labels, so a label identifies a row of the dataset.
\<close>

type_synonym frame = "(nat \<times> game) list"

datatype error = ValueError

text \<open>\<open>pd.read_csv\<close>: the rows of the file under the labels 0, 1, 2, ...\<close>

definition read_csv :: "game list \<Rightarrow> frame" where
  "read_csv rows = zip [0..<length rows] rows"

text \<open>\<open>df[col]\<close>: the values of a column, in row order.\<close>

definition series :: "(game \<Rightarrow> 'a) \<Rightarrow> frame \<Rightarrow> 'a list" where
  "series col df = map (\<lambda>(i, r). col r) df"

text \<open>\<open>s == v\<close>, elementwise.\<close>

definition series_eq :: "'a list \<Rightarrow> 'a \<Rightarrow> bool list" where
  "series_eq xs v = map (\<lambda>x. x = v) xs"

text \<open>
  \<open>s >= v\<close> and \<open>s <= v\<close> on the Year column: a comparison with NaN is False.
\<close>

definition series_ge :: "int option list \<Rightarrow> int \<Rightarrow> bool list" where
  "series_ge xs v = map (\<lambda>x. case x of None \<Rightarrow> False | Some y \<Rightarrow> v \<le> y) xs"

definition series_le :: "int option list \<Rightarrow> int \<Rightarrow> bool list" where
  "series_le xs v = map (\<lambda>x. case x of None \<Rightarrow> False | Some y \<Rightarrow> y \<le> v) xs"

text \<open>\<open>m1 & m2\<close>, elementwise.\<close>

definition mask_and :: "bool list \<Rightarrow> bool list \<Rightarrow> bool list" where
  "mask_and m1 m2 = map (\<lambda>(a, b). a \<and> b) (zip m1 m2)"

text \<open>\<open>df[mask]\<close>: the rows whose mask entry is True, in order.\<close>

definition select_rows :: "frame \<Rightarrow> bool list \<Rightarrow> frame" where
  "select_rows df m = map fst (filter snd (zip df m))"

text \<open>\<open>s.dropna()\<close> and \<open>s.unique()\<close> (distinct values in order of first appearance).\<close>

definition dropna :: "'a option list \<Rightarrow> 'a list" where
  "dropna xs = concat (map (\<lambda>x. case x of None \<Rightarrow> [] | Some y \<Rightarrow> [y]) xs)"

fun unique :: "'a list \<Rightarrow> 'a list" where
  "unique [] = []"
| "unique (x # xs) = x # unique (filter (\<lambda>y. y \<noteq> x) xs)"

subsection \<open>Sidebar filters (lines 19-26)\<close>

text \<open>\<open>years = sorted(df["Year"].dropna().unique())\<close>\<close>

definition years :: "frame \<Rightarrow> int list" where
  "years df = sort (unique (dropna (series Year df)))"

text \<open>Python's \<open>min\<close> and \<open>max\<close> of a list raise ValueError on the empty list.\<close>

fun py_min :: "int list \<Rightarrow> error + int" where
  "py_min [] = Inl ValueError"
| "py_min (x # xs) = Inr (fold min xs x)"

fun py_max :: "int list \<Rightarrow> error + int" where
  "py_max [] = Inl ValueError"
| "py_max (x # xs) = Inr (fold max xs x)"

text \<open>
  The bounds handed to the year slider: \<open>int(min(years)), int(max(years))\<close>.
\<close>

definition year_bounds :: "frame \<Rightarrow> error + (int \<times> int)" where
  "year_bounds df =
     (case py_min (years df) of
        Inl e \<Rightarrow> Inl e
      | Inr lo \<Rightarrow> (case py_max (years df) of Inl e \<Rightarrow> Inl e | Inr hi \<Rightarrow> Inr (lo, hi)))"

text \<open>\<open>platforms = sorted(df["Platform"].unique())\<close>\<close>

definition platforms :: "frame \<Rightarrow> string list" where
  "platforms df = sort (unique (series Platform df))"

text \<open>
  \<open>st.sidebar.selectbox(label, options)\<close>. The script is run again from the top on
  every interaction; between runs the widget remembers the index the user picked,
  for the option list it was built with. A select box that is new, or whose option
  list has changed, shows its first option. With no options it returns None.
\<close>

type_synonym widget_state = "(string list \<times> nat) option"

definition selectbox :: "string list \<Rightarrow> widget_state \<Rightarrow> string option" where
  "selectbox opts st =
     (case opts of
        [] \<Rightarrow> None
      | x # _ \<Rightarrow>
          (case st of
             None \<Rightarrow> Some x
           | Some (old, i) \<Rightarrow> if old = opts \<and> i < length opts then Some (opts ! i) else Some x))"

definition selected_platform :: "frame \<Rightarrow> widget_state \<Rightarrow> string option" where
  "selected_platform df st = selectbox (platforms df) st"

text \<open>\<open>genres = df[df["Platform"] == selected_platform]["Genre"].unique()\<close>\<close>

definition genres :: "frame \<Rightarrow> string \<Rightarrow> string list" where
  "genres df p = unique (series Genre (select_rows df (series_eq (series Platform df) p)))"

text \<open>\<open>selected_genre = st.sidebar.selectbox("Genre", sorted(genres))\<close>\<close>

definition selected_genre :: "frame \<Rightarrow> string \<Rightarrow> widget_state \<Rightarrow> string option" where
  "selected_genre df p st = selectbox (sort (genres df p)) st"

subsection \<open>Filtered data (lines 29-34)\<close>

definition filtered_df :: "frame \<Rightarrow> int \<times> int \<Rightarrow> string \<Rightarrow> string \<Rightarrow> frame" where
  "filtered_df df year_range p g =
     select_rows df
       (mask_and
          (mask_and
             (mask_and (series_ge (series Year df) (fst year_range))
                       (series_le (series Year df) (snd year_range)))
             (series_eq (series Platform df) p))
          (series_eq (series Genre df) g))"

text \<open>The predicate the four masks encode, on one row.\<close>

definition matches :: "int \<times> int \<Rightarrow> string \<Rightarrow> string \<Rightarrow> game \<Rightarrow> bool" where
  "matches year_range p g r =
     ((case Year r of None \<Rightarrow> False | Some y \<Rightarrow> fst year_range \<le> y \<and> y \<le> snd year_range)
      \<and> Platform r = p \<and> Genre r = g)"

subsection \<open>Summary metrics (lines 39-41)\<close>

text \<open>\<open>filtered_df['Global_Sales'].sum()\<close>\<close>

definition total_global_sales :: "frame \<Rightarrow> real" where
  "total_global_sales view = sum_list (series Global_Sales view)"

text \<open>\<open>filtered_df.shape[0]\<close>\<close>

definition total_games :: "frame \<Rightarrow> nat" where
  "total_games view = length view"

text \<open>
  \<open>view.groupby(key)[val].sum()\<close>: one entry per distinct key, keys in sorted order,
  each with the sum of \<open>val\<close> over the rows of that key.
\<close>

definition groupby_sum :: "(game \<Rightarrow> string) \<Rightarrow> (game \<Rightarrow> real) \<Rightarrow> frame \<Rightarrow> (string \<times> real) list" where
  "groupby_sum key val view =
     map (\<lambda>k. (k, sum_list (series val (filter (\<lambda>(i, r). key r = k) view))))
         (sort (unique (series key view)))"

text \<open>
  \<open>s.idxmax()\<close>: the label of the first maximum; on an empty series it raises ValueError.
\<close>

fun idxmax :: "(string \<times> real) list \<Rightarrow> error + string" where
  "idxmax [] = Inl ValueError"
| "idxmax ((k, v) # rest) =
     Inr (fst (fold (\<lambda>(k', v') (bk, bv). if bv < v' then (k', v') else (bk, bv)) rest (k, v)))"

text \<open>\<open>filtered_df.groupby("Publisher")["Global_Sales"].sum().idxmax()\<close>\<close>

definition top_publisher :: "frame \<Rightarrow> error + string" where
  "top_publisher view = idxmax (groupby_sum Publisher Global_Sales view)"

subsection \<open>Top 10 games (line 48)\<close>

text \<open>
  \<open>sort_values(by="Global_Sales", ascending=False)\<close> is called without a \<open>kind\<close>, so
  pandas sorts with numpy's \<open>argsort(kind='quicksort')\<close>. For an array of doubles that is
  the introsort of numpy's \<open>npysort/quicksort\<close>, on an array of positions \<open>tosort\<close> that
  starts as 0, 1, 2, ...: segments of more than 17 positions are partitioned around
  the median of their first, middle and last element, shorter ones are sorted by
  insertion, and a segment taken from the stack below the depth limit is sorted by
  heapsort. A segment of the array is a list of positions here; \<open>v\<close> holds the values.
\<close>

text \<open>\<open>INTP_SWAP(s[i], s[j])\<close>\<close>

definition intp_swap :: "nat \<Rightarrow> nat \<Rightarrow> nat list \<Rightarrow> nat list" where
  "intp_swap i j s = s[i := s ! j, j := s ! i]"

text \<open>
  The insertion sort at the end of the loop body: each position \<open>vi\<close> moves down past
  the positions before it whose value is greater. The part already sorted is kept
  in reverse, so that its last element comes first.
\<close>

fun insert_down :: "real list \<Rightarrow> nat \<Rightarrow> nat list \<Rightarrow> nat list" where
  "insert_down v vi [] = [vi]"
| "insert_down v vi (k # ks) =
     (if v ! vi < v ! k then k # insert_down v vi ks else vi # k # ks)"

definition insertion_sort :: "real list \<Rightarrow> nat list \<Rightarrow> nat list" where
  "insertion_sort v s = rev (fold (insert_down v) s [])"

text \<open>
  \<open>aheapsort_\<close>. The C code indexes the segment from 1 (\<open>a = tosort - 1\<close>); here the list
  \<open>a\<close> has an unused element in front. \<open>sift\<close> is the inner loop
  \<open>for (i = l, j = l << 1; j <= n;)\<close>, which moves the larger child up while it is
  greater than \<open>tmp\<close>; it returns the array and the position where \<open>tmp\<close> goes.
\<close>

function sift :: "real list \<Rightarrow> nat list \<Rightarrow> nat \<Rightarrow> nat \<Rightarrow> nat \<Rightarrow> nat \<Rightarrow> nat list \<times> nat" where
  "sift v a tmp i j n =
     (if 0 < j \<and> j \<le> n then
        (let j' = (if j < n \<and> v ! (a ! j) < v ! (a ! (j + 1)) then j + 1 else j)
         in if v ! tmp < v ! (a ! j')
            then sift v (a[i := a ! j']) tmp j' (j' + j') n
            else (a, i))
      else (a, i))"
  by pat_completeness auto
termination
  by (relation "measure (\<lambda>(v, a, tmp, i, j, n). Suc n - j)") auto

definition sift_down :: "real list \<Rightarrow> nat list \<Rightarrow> nat \<Rightarrow> nat \<Rightarrow> nat \<Rightarrow> nat list" where
  "sift_down v a tmp i n = (case sift v a tmp i (i + i) n of (a', i') \<Rightarrow> a'[i' := tmp])"

text \<open>\<open>for (l = n >> 1; l > 0; --l)\<close>: build the heap.\<close>

definition build_heap :: "real list \<Rightarrow> nat list \<Rightarrow> nat \<Rightarrow> nat list" where
  "build_heap v a n = fold (\<lambda>l a. sift_down v a (a ! l) l n) (rev [1..<Suc (n div 2)]) a"

text \<open>
  \<open>for (; n > 1;)\<close>: move the root behind the heap, shrink the heap, sift the element
  that was there down from the root.
\<close>

fun extract_all :: "real list \<Rightarrow> nat list \<Rightarrow> nat \<Rightarrow> nat list" where
  "extract_all v a 0 = a"
| "extract_all v a (Suc n) =
     (if 0 < n then extract_all v (sift_down v (a[Suc n := a ! 1]) (a ! Suc n) 1 n) n else a)"

definition aheapsort :: "real list \<Rightarrow> nat list \<Rightarrow> nat list" where
  "aheapsort v s = tl (extract_all v (build_heap v (0 # s) (length s)) (length s))"

text \<open>
  The partition step of \<open>aquicksort_\<close> on a segment \<open>s\<close>, with \<open>pl\<close> at 0 and \<open>pr\<close> at
  \<open>length s - 1\<close>. First the three conditional swaps that order the elements at \<open>pl\<close>,
  \<open>pm\<close> and \<open>pr\<close>.
\<close>

definition median3 :: "real list \<Rightarrow> nat list \<Rightarrow> nat list" where
  "median3 v s =
     (let pr = length s - 1; pm = pr div 2;
          s1 = (if v ! (s ! pm) < v ! (s ! 0) then intp_swap pm 0 s else s);
          s2 = (if v ! (s1 ! pr) < v ! (s1 ! pm) then intp_swap pr pm s1 else s1)
      in if v ! (s2 ! pm) < v ! (s2 ! 0) then intp_swap pm 0 s2 else s2)"

text \<open>
  \<open>do { ++pi; } while (v[*pi] < vp)\<close> is \<open>scan_up\<close> from \<open>pi + 1\<close>, and
  \<open>do { --pj; } while (vp < v[*pj])\<close> is \<open>scan_down\<close> from \<open>pj - 1\<close>. In the C code the
  elements at both ends of the segment stop the scans; here a scan also stops at the
  end of the list, which is never reached (lemma \<open>hoare_spec\<close>).
\<close>

function scan_up :: "real list \<Rightarrow> real \<Rightarrow> nat list \<Rightarrow> nat \<Rightarrow> nat" where
  "scan_up v vp s i = (if i < length s \<and> v ! (s ! i) < vp then scan_up v vp s (i + 1) else i)"
  by pat_completeness auto
termination
  by (relation "measure (\<lambda>(v, vp, s, i). length s - i)") auto

fun scan_down :: "real list \<Rightarrow> real \<Rightarrow> nat list \<Rightarrow> nat \<Rightarrow> nat" where
  "scan_down v vp s 0 = 0"
| "scan_down v vp s (Suc j) = (if vp < v ! (s ! Suc j) then scan_down v vp s j else Suc j)"

text \<open>The loop \<open>for (;;)\<close>: scan, stop when the scans have met, else swap and go on.\<close>

function hoare :: "real list \<Rightarrow> real \<Rightarrow> nat list \<Rightarrow> nat \<Rightarrow> nat \<Rightarrow> nat list \<times> nat" where
  "hoare v vp s i j =
     (let i' = scan_up v vp s (i + 1); j' = scan_down v vp s (j - 1)
      in if j' \<le> i' then (s, i') else hoare v vp (intp_swap i' j' s) i' j')"
  by pat_completeness auto

text \<open>
  The whole step: the pivot goes to \<open>pr - 1\<close>, the loop runs from \<open>pl\<close> and \<open>pr - 1\<close>,
  and the pivot is swapped to where the scans met. The result is the rearranged segment
  and the position of the pivot.
\<close>

definition qs_partition :: "real list \<Rightarrow> nat list \<Rightarrow> nat list \<times> nat" where
  "qs_partition v s =
     (let pr = length s - 1; pm = pr div 2;
          s3 = median3 v s;
          vp = v ! (s3 ! pm);
          s4 = intp_swap pm (pr - 1) s3
      in case hoare v vp s4 0 (pr - 1) of (s5, i) \<Rightarrow> (intp_swap i (pr - 1) s5, i))"

text \<open>
  The outer loop with its stack, as a recursion on segments. After a partition
  (\<open>pr - pl > SMALL_QUICKSORT\<close>, which is 16) the loop goes on with the smaller part and
  pushes the larger one, both with the depth counter decreased by one. Only a segment
  popped from the stack is tested against the depth limit (\<open>cdepth < 0\<close>) and then
  sorted by heapsort; \<open>popped\<close> says whether the segment comes from the stack. The two
  parts lie on either side of the pivot, so the sorted segment is the sorted left part,
  the pivot, the sorted right part.
\<close>

function qs :: "real list \<Rightarrow> bool \<Rightarrow> int \<Rightarrow> nat list \<Rightarrow> nat list" where
  "qs v popped cdepth s =
     (if popped \<and> cdepth < 0 then aheapsort v s
      else if 16 < length s - 1 then
        (case qs_partition v s of (s', i) \<Rightarrow>
           if i < length s - 1 - i
           then qs v False (cdepth - 1) (take i s') @ [s' ! i] @ qs v True (cdepth - 1) (drop (i + 1) s')
           else qs v True (cdepth - 1) (take i s') @ [s' ! i] @ qs v False (cdepth - 1) (drop (i + 1) s'))
      else insertion_sort v s)"
  by pat_completeness auto

text \<open>\<open>npy_get_msb\<close>: the position of the highest set bit.\<close>

fun npy_get_msb :: "nat \<Rightarrow> nat" where
  "npy_get_msb n = (if n \<le> 1 then 0 else Suc (npy_get_msb (n div 2)))"

text \<open>\<open>argsort(kind='quicksort')\<close>: the depth limit is \<open>npy_get_msb(num) * 2\<close>.\<close>

definition aquicksort :: "real list \<Rightarrow> nat list" where
  "aquicksort v = qs v True (2 * int (npy_get_msb (length v))) [0..<length v]"

text \<open>
  pandas' \<open>nargsort\<close> for a descending sort: reverse the values and their positions,
  argsort, look the positions up, reverse the result. \<open>sort_values\<close> then takes the rows
  at these positions, and \<open>head(10)\<close> the first ten of them.
\<close>

definition nargsort_desc :: "real list \<Rightarrow> nat list" where
  "nargsort_desc items =
     (let idx = [0..<length items];
          non_nans = rev items;
          non_nan_idx = rev idx;
          indexer = map (\<lambda>j. non_nan_idx ! j) (aquicksort non_nans)
      in rev indexer)"

definition sort_values_desc :: "(game \<Rightarrow> real) \<Rightarrow> frame \<Rightarrow> frame" where
  "sort_values_desc col view = map (\<lambda>i. view ! i) (nargsort_desc (series col view))"

definition head :: "nat \<Rightarrow> frame \<Rightarrow> frame" where
  "head n view = take n view"

definition top_games :: "frame \<Rightarrow> frame" where
  "top_games view = head 10 (sort_values_desc Global_Sales view)"

text \<open>Rows of equal Global_Sales appear in the order of their labels.\<close>

definition ties_in_row_order :: "frame \<Rightarrow> bool" where
  "ties_in_row_order out =
     sorted_wrt (\<lambda>a b. Global_Sales (snd a) = Global_Sales (snd b) \<longrightarrow> fst a < fst b) out"

text \<open>
  For the proofs: the heap property of the positions \<open>l\<close> to \<open>n\<close> of an array, every
  element being at most its parent.
\<close>

definition hp :: "real list \<Rightarrow> nat list \<Rightarrow> nat \<Rightarrow> nat \<Rightarrow> bool" where
  "hp v a l n = (\<forall>c. 2 * l \<le> c \<and> c \<le> n \<longrightarrow> v ! (a ! c) \<le> v ! (a ! (c div 2)))"

subsection \<open>Games released per year (lines 56-57)\<close>

text \<open>
  \<open>s.value_counts()\<close>: the distinct values that are not NaN, each with the number of its
  occurrences, most frequent first. \<open>sort_index()\<close> then orders the entries by value.
\<close>

definition value_counts :: "int option list \<Rightarrow> (int \<times> nat) list" where
  "value_counts ys =
     sort_key (\<lambda>(y, c). - int c)
       (map (\<lambda>y. (y, count_list (dropna ys) y)) (unique (dropna ys)))"

definition sort_index :: "(int \<times> nat) list \<Rightarrow> (int \<times> nat) list" where
  "sort_index s = sort_key fst s"

definition games_year :: "frame \<Rightarrow> (int \<times> nat) list" where
  "games_year view = sort_index (value_counts (series Year view))"

subsection \<open>Genre share and box plot (line 66)\<close>

definition pie_df :: "frame \<Rightarrow> string \<Rightarrow> frame" where
  "pie_df df p = select_rows df (series_eq (series Platform df) p)"

subsection \<open>Regional sales correlation (line 83)\<close>

text \<open>
  \<open>DataFrame.corr()\<close> turns the five sales columns into a float64 matrix and hands it to
  pandas' \<open>nancorr\<close>, which computes in IEEE 754 double precision. The outcome depends
  on the rounding, so the arithmetic is modelled as it is carried out: every operation
  returns the double nearest to the exact result.
\<close>

subsubsection \<open>Rounding to double precision\<close>

text \<open>\<open>rne y\<close>: the integer nearest to \<open>y\<close>, a tie going to the even one.\<close>

definition rne :: "real \<Rightarrow> int" where
  "rne y = (let f = \<lfloor>y\<rfloor>; d = y - of_int f
            in if d < 1 / 2 then f else if 1 / 2 < d then f + 1 else if even f then f else f + 1)"

text \<open>
  \<open>expo x\<close> is the exponent of \<open>x\<close>: the largest \<open>e\<close> from -1022 to 1023 with
  \<open>2^e \<le> \<bar>x\<bar>\<close>, and -1022 below that (the subnormal range). The doubles with that exponent
  are the multiples of \<open>ulp x = 2^(e - 52)\<close>, and \<open>rnd x\<close> is the one nearest to \<open>x\<close>.
\<close>

fun expo_from :: "real \<Rightarrow> nat \<Rightarrow> int" where
  "expo_from x 0 = - 1022"
| "expo_from x (Suc k) =
     (if 2 powi (int (Suc k) - 1022) \<le> \<bar>x\<bar> then int (Suc k) - 1022 else expo_from x k)"

definition expo :: "real \<Rightarrow> int" where
  "expo x = expo_from x 2045"

definition ulp :: "real \<Rightarrow> real" where
  "ulp x = 2 powi (expo x - 52)"

definition rnd :: "real \<Rightarrow> real" where
  "rnd x = of_int (rne (x / ulp x)) * ulp x"

text \<open>
  A double is the real number it denotes, an infinity, or NaN. The sign of a zero is not
  recorded: \<open>nancorr\<close> only compares zeros, which does not depend on the sign.
\<close>

datatype f64 = Fin real | PInf | NInf | NaN

text \<open>The double nearest to \<open>x\<close>; a rounded magnitude of \<open>2^1024\<close> or more overflows.\<close>

definition to_f64 :: "real \<Rightarrow> f64" where
  "to_f64 x = (let r = rnd x
               in if 2 powi 1024 \<le> r then PInf
                  else if r \<le> - (2 powi 1024) then NInf
                  else Fin r)"

text \<open>\<open>np.isfinite\<close>.\<close>

fun isfinite :: "f64 \<Rightarrow> bool" where
  "isfinite (Fin a) = True"
| "isfinite x = False"

text \<open>
  Addition, subtraction, multiplication, division and square root: the exact result,
  rounded, and the IEEE 754 rules for the special values. A division by zero takes the
  zero as positive; \<open>nancorr\<close> divides by the number of rows read so far, which is at
  least 1, and by a divisor that it has just tested to be nonzero.
\<close>

fun fadd :: "f64 \<Rightarrow> f64 \<Rightarrow> f64" where
  "fadd (Fin a) (Fin b) = to_f64 (a + b)"
| "fadd NaN y = NaN"
| "fadd x NaN = NaN"
| "fadd PInf NInf = NaN"
| "fadd NInf PInf = NaN"
| "fadd PInf y = PInf"
| "fadd x PInf = PInf"
| "fadd NInf y = NInf"
| "fadd x NInf = NInf"

fun fsub :: "f64 \<Rightarrow> f64 \<Rightarrow> f64" where
  "fsub (Fin a) (Fin b) = to_f64 (a - b)"
| "fsub NaN y = NaN"
| "fsub x NaN = NaN"
| "fsub PInf PInf = NaN"
| "fsub NInf NInf = NaN"
| "fsub PInf y = PInf"
| "fsub x PInf = NInf"
| "fsub NInf y = NInf"
| "fsub x NInf = PInf"

fun fmul :: "f64 \<Rightarrow> f64 \<Rightarrow> f64" where
  "fmul (Fin a) (Fin b) = to_f64 (a * b)"
| "fmul NaN y = NaN"
| "fmul x NaN = NaN"
| "fmul (Fin a) PInf = (if a = 0 then NaN else if 0 < a then PInf else NInf)"
| "fmul (Fin a) NInf = (if a = 0 then NaN else if 0 < a then NInf else PInf)"
| "fmul PInf (Fin b) = (if b = 0 then NaN else if 0 < b then PInf else NInf)"
| "fmul NInf (Fin b) = (if b = 0 then NaN else if 0 < b then NInf else PInf)"
| "fmul PInf PInf = PInf"
| "fmul PInf NInf = NInf"
| "fmul NInf PInf = NInf"
| "fmul NInf NInf = PInf"

fun fdiv :: "f64 \<Rightarrow> f64 \<Rightarrow> f64" where
  "fdiv (Fin a) (Fin b) =
     (if b = 0 then (if a = 0 then NaN else if 0 < a then PInf else NInf)
      else to_f64 (a / b))"
| "fdiv NaN y = NaN"
| "fdiv x NaN = NaN"
| "fdiv (Fin a) y = Fin 0"
| "fdiv PInf (Fin b) = (if 0 \<le> b then PInf else NInf)"
| "fdiv NInf (Fin b) = (if 0 \<le> b then NInf else PInf)"
| "fdiv x y = NaN"

fun fsqrt :: "f64 \<Rightarrow> f64" where
  "fsqrt (Fin a) = (if a < 0 then NaN else to_f64 (sqrt a))"
| "fsqrt PInf = PInf"
| "fsqrt x = NaN"

text \<open>\<open>x < y\<close> and \<open>x != y\<close> on doubles: a comparison with NaN is false, \<open>!=\<close> with NaN true.\<close>

fun flt :: "f64 \<Rightarrow> f64 \<Rightarrow> bool" where
  "flt (Fin a) (Fin b) = (a < b)"
| "flt NaN y = False"
| "flt x NaN = False"
| "flt x NInf = False"
| "flt PInf y = False"
| "flt x y = True"

definition fne :: "f64 \<Rightarrow> f64 \<Rightarrow> bool" where
  "fne x y = (x = NaN \<or> y = NaN \<or> x \<noteq> y)"

subsubsection \<open>nancorr\<close>

text \<open>
  For each pair of columns, one pass over the rows in which both values are finite. It
  keeps the count, the two running means, the two sums of squared deviations and the
  sum of products, and updates them by Welford's method:
  \<open>dx = vx - meanx; meanx += 1. / nobs * dx; ssqdm_x += (vx - meanx) * dx\<close>,
  likewise for \<open>y\<close>, and \<open>covxy += (vx - meanx) * dy\<close>.
\<close>

record acc =
  nobs :: nat
  meanx :: f64
  meany :: f64
  ssqdm_x :: f64
  ssqdm_y :: f64
  covxy :: f64

definition acc_init :: acc where
  "acc_init = \<lparr>nobs = 0, meanx = Fin 0, meany = Fin 0,
               ssqdm_x = Fin 0, ssqdm_y = Fin 0, covxy = Fin 0\<rparr>"

definition acc_step :: "f64 \<times> f64 \<Rightarrow> acc \<Rightarrow> acc" where
  "acc_step v a =
     (let vx = fst v; vy = snd v
      in if isfinite vx \<and> isfinite vy
         then (let n = nobs a + 1;
                   dx = fsub vx (meanx a);
                   dy = fsub vy (meany a);
                   mx = fadd (meanx a) (fmul (fdiv (Fin 1) (to_f64 (real n))) dx);
                   my = fadd (meany a) (fmul (fdiv (Fin 1) (to_f64 (real n))) dy)
               in \<lparr>nobs = n, meanx = mx, meany = my,
                   ssqdm_x = fadd (ssqdm_x a) (fmul (fsub vx mx) dx),
                   ssqdm_y = fadd (ssqdm_y a) (fmul (fsub vy my) dy),
                   covxy = fadd (covxy a) (fmul (fsub vx mx) dy)\<rparr>)
         else a)"

text \<open>
  After the pass the entry is NaN if fewer than \<open>minp\<close> rows were read or if
  \<open>divisor = sqrt(ssqdm_x * ssqdm_y)\<close> is zero, and \<open>covxy / divisor\<close> otherwise. Recent
  versions of pandas clip that quotient to the interval from -1 to 1, older ones return
  it as it is; \<open>clipped\<close> tells which of the two is modelled.
\<close>

definition clip :: "f64 \<Rightarrow> f64" where
  "clip val = (if flt (Fin 1) val then Fin 1 else if flt val (Fin (- 1)) then Fin (- 1) else val)"

definition nancorr_pair :: "bool \<Rightarrow> nat \<Rightarrow> f64 list \<Rightarrow> f64 list \<Rightarrow> f64" where
  "nancorr_pair clipped minp xs ys =
     (let a = fold acc_step (zip xs ys) acc_init
      in if nobs a < minp then NaN
         else (let divisor = fsqrt (fmul (ssqdm_x a) (ssqdm_y a))
               in if fne divisor (Fin 0)
                  then (let val = fdiv (covxy a) divisor
                        in if clipped then clip val else val)
                  else NaN))"

text \<open>
  The matrix: column \<open>c\<close> of \<open>mat\<close> holds the doubles of the \<open>c\<close>-th sales column.
  \<open>nancorr\<close> computes the entries with \<open>yi \<le> xi\<close> and stores each of them at
  \<open>(xi, yi)\<close> and at \<open>(yi, xi)\<close>; \<open>corr()\<close> calls it with \<open>minp = 1\<close>.
\<close>

definition sales_columns :: "(game \<Rightarrow> real) list" where
  "sales_columns = [NA_Sales, EU_Sales, JP_Sales, Other_Sales, Global_Sales]"

definition mat_column :: "frame \<Rightarrow> nat \<Rightarrow> f64 list" where
  "mat_column view c = map to_f64 (series (sales_columns ! c) view)"

definition corr_entry :: "bool \<Rightarrow> frame \<Rightarrow> nat \<Rightarrow> nat \<Rightarrow> f64" where
  "corr_entry clipped view a b =
     (if b \<le> a
      then nancorr_pair clipped 1 (mat_column view a) (mat_column view b)
      else nancorr_pair clipped 1 (mat_column view b) (mat_column view a))"

definition corr :: "bool \<Rightarrow> frame \<Rightarrow> f64 list list" where
  "corr clipped view = map (\<lambda>a. map (\<lambda>b. corr_entry clipped view a b) [0..<5]) [0..<5]"

subsubsection \<open>Notions used to state and prove the properties of the matrix\<close>

text \<open>
  The sample mean and the sample variance of a column, over the reals. The script does
  not compute them; the property of the correlation matrix is stated with them.
\<close>

definition mean :: "real list \<Rightarrow> real" where
  "mean xs = sum_list xs / real (length xs)"

definition variance :: "real list \<Rightarrow> real" where
  "variance xs = sum_list (map (\<lambda>x. (x - mean xs)\<^sup>2) xs) / real (length xs - 1)"

text \<open>
  \<open>ssqdm view c\<close>: the sum of squared deviations that the pass for the diagonal entry of
  column \<open>c\<close> ends with.
\<close>

definition ssqdm :: "frame \<Rightarrow> nat \<Rightarrow> f64" where
  "ssqdm view c = ssqdm_x (fold acc_step (zip (mat_column view c) (mat_column view c)) acc_init)"

text \<open>
  Invariants of the pass. On a column whose finite values all equal \<open>r\<close>, the sum of
  squared deviations stays 0 and the mean is \<open>r\<close> once a row has been read. On a column
  paired with itself, the quantities of \<open>x\<close> and \<open>y\<close> coincide, and the sum of squared
  deviations is a double.
\<close>

definition const_x :: "real \<Rightarrow> acc \<Rightarrow> bool" where
  "const_x r a \<longleftrightarrow> ssqdm_x a = Fin 0 \<and> (nobs a = 0 \<and> meanx a = Fin 0 \<or> meanx a = Fin r)"

definition const_y :: "real \<Rightarrow> acc \<Rightarrow> bool" where
  "const_y r a \<longleftrightarrow> ssqdm_y a = Fin 0 \<and> (nobs a = 0 \<and> meany a = Fin 0 \<or> meany a = Fin r)"

fun rep :: "f64 \<Rightarrow> bool" where
  "rep (Fin r) = (rnd r = r)"
| "rep x = True"

definition diag_inv :: "acc \<Rightarrow> bool" where
  "diag_inv a \<longleftrightarrow> meany a = meanx a \<and> ssqdm_y a = ssqdm_x a \<and> covxy a = ssqdm_x a
     \<and> (nobs a = 0 \<longrightarrow> ssqdm_x a = Fin 0) \<and> rep (ssqdm_x a)"

subsection \<open>Regional sales map (lines 99-119)\<close>

record region_item =
  Region :: string
  lat :: real
  lon :: real
  column :: string

definition region_data :: "region_item list" where
  "region_data =
     [\<lparr>Region = ''North America'', lat = 40, lon = - 100, column = ''NA_Sales''\<rparr>,
      \<lparr>Region = ''Europe'', lat = 545 / 10, lon = 153 / 10, column = ''EU_Sales''\<rparr>,
      \<lparr>Region = ''Japan'', lat = 362 / 10, lon = 1382 / 10, column = ''JP_Sales''\<rparr>,
      \<lparr>Region = ''Other'', lat = - (88 / 10), lon = 1152 / 10, column = ''Other_Sales''\<rparr>]"

text \<open>
  The numeric columns of the frame by name; \<open>None\<close> for a name that is not one of them,
  where \<open>col in filtered_df.columns\<close> is False.
\<close>

definition sales_column :: "string \<Rightarrow> (game \<Rightarrow> real) option" where
  "sales_column c =
     (if c = ''NA_Sales'' then Some NA_Sales
      else if c = ''EU_Sales'' then Some EU_Sales
      else if c = ''JP_Sales'' then Some JP_Sales
      else if c = ''Other_Sales'' then Some Other_Sales
      else if c = ''Global_Sales'' then Some Global_Sales
      else None)"

text \<open>An entry of \<open>map_data\<close>: Region, Sales (M), lat, lon.\<close>

type_synonym map_entry = "string \<times> real \<times> real \<times> real"

fun map_data_loop :: "frame \<Rightarrow> region_item list \<Rightarrow> map_entry list \<Rightarrow> map_entry list" where
  "map_data_loop view [] out = out"
| "map_data_loop view (item # items) out =
     (case sales_column (column item) of
        None \<Rightarrow> map_data_loop view items out
      | Some col \<Rightarrow>
          map_data_loop view items
            (out @ [(Region item, sum_list (series col view), lat item, lon item)]))"

definition map_data :: "frame \<Rightarrow> map_entry list" where
  "map_data view = map_data_loop view region_data []"


subsection \<open>An example dataset\<close>

text \<open>
  Four Wii rows and one NES row. Row 2 has no Year; rows 1 and 4 have equal Global_Sales.
\<close>

definition example_rows :: "game list" where
  "example_rows =
     [\<lparr>Name = ''Wii Sports'', Platform = ''Wii'', Year = Some 2006, Genre = ''Sports'',
        Publisher = ''Nintendo'', NA_Sales = 4, EU_Sales = 3, JP_Sales = 2, Other_Sales = 1,
        Global_Sales = 10\<rparr>,
      \<lparr>Name = ''Need for Speed'', Platform = ''Wii'', Year = Some 2008, Genre = ''Racing'',
        Publisher = ''Electronic Arts'', NA_Sales = 2, EU_Sales = 1, JP_Sales = 1, Other_Sales = 1,
        Global_Sales = 5\<rparr>,
      \<lparr>Name = ''Wii Fit'', Platform = ''Wii'', Year = None, Genre = ''Sports'',
        Publisher = ''Nintendo'', NA_Sales = 1, EU_Sales = 1, JP_Sales = 1, Other_Sales = 0,
        Global_Sales = 3\<rparr>,
      \<lparr>Name = ''Duck Hunt'', Platform = ''NES'', Year = Some 1984, Genre = ''Shooter'',
        Publisher = ''Nintendo'', NA_Sales = 3, EU_Sales = 1, JP_Sales = 1, Other_Sales = 1,
        Global_Sales = 6\<rparr>,
      \<lparr>Name = ''Mario Kart Wii'', Platform = ''Wii'', Year = Some 2008, Genre = ''Racing'',
        Publisher = ''Nintendo'', NA_Sales = 2, EU_Sales = 1, JP_Sales = 1, Other_Sales = 1,
        Global_Sales = 5\<rparr>]"

definition example_df :: frame where
  "example_df = read_csv example_rows"

text \<open>Twenty-four Wii racing games of 2008 that all sold the same.\<close>

definition racing_rows :: "game list" where
  "racing_rows =
     replicate 24
       \<lparr>Name = ''Racer'', Platform = ''Wii'', Year = Some 2008, Genre = ''Racing'',
        Publisher = ''Nintendo'', NA_Sales = 2, EU_Sales = 1, JP_Sales = 1, Other_Sales = 1,
        Global_Sales = 5\<rparr>"

definition racing_view :: frame where
  "racing_view = filtered_df (read_csv racing_rows) (1980, 2020) ''Wii'' ''Racing''"

text \<open>Twelve Wii sports games of 2009 with twelve different sales figures.\<close>

definition ranked_rows :: "game list" where
  "ranked_rows =
     map (\<lambda>s. \<lparr>Name = ''Sports Game'', Platform = ''Wii'', Year = Some 2009, Genre = ''Sports'',
                Publisher = ''Nintendo'', NA_Sales = s, EU_Sales = 0, JP_Sales = 0,
                Other_Sales = 0, Global_Sales = s\<rparr>)
         [3, 11, 7, 1, 12, 5, 9, 2, 10, 6, 4, 8]"

definition ranked_view :: frame where
  "ranked_view = filtered_df (read_csv ranked_rows) (1980, 2020) ''Wii'' ''Sports''"

text \<open>
  Two Wii puzzle games of 2010: one sold nothing, the other 2 in every column.
\<close>

definition paired_rows :: "game list" where
  "paired_rows =
     [\<lparr>Name = ''Unsold'', Platform = ''Wii'', Year = Some 2010, Genre = ''Puzzle'',
        Publisher = ''Nintendo'', NA_Sales = 0, EU_Sales = 0, JP_Sales = 0, Other_Sales = 0,
        Global_Sales = 0\<rparr>,
      \<lparr>Name = ''Sold'', Platform = ''Wii'', Year = Some 2010, Genre = ''Puzzle'',
        Publisher = ''Nintendo'', NA_Sales = 2, EU_Sales = 2, JP_Sales = 2, Other_Sales = 2,
        Global_Sales = 2\<rparr>]"

definition paired_view :: frame where
  "paired_view = filtered_df (read_csv paired_rows) (1980, 2020) ''Wii'' ''Puzzle''"

text \<open>
  The same with \<open>2^-300\<close> in place of 2: a double, about \<open>4.9e-91\<close>.
\<close>

definition tiny_rows :: "game list" where
  "tiny_rows =
     [\<lparr>Name = ''Unsold'', Platform = ''Wii'', Year = Some 2010, Genre = ''Puzzle'',
        Publisher = ''Nintendo'', NA_Sales = 0, EU_Sales = 0, JP_Sales = 0, Other_Sales = 0,
        Global_Sales = 0\<rparr>,
      \<lparr>Name = ''Barely Sold'', Platform = ''Wii'', Year = Some 2010, Genre = ''Puzzle'',
        Publisher = ''Nintendo'', NA_Sales = 2 powi (- 300), EU_Sales = 2 powi (- 300),
        JP_Sales = 2 powi (- 300), Other_Sales = 2 powi (- 300),
        Global_Sales = 2 powi (- 300)\<rparr>]"

definition tiny_view :: frame where
  "tiny_view = filtered_df (read_csv tiny_rows) (1980, 2020) ''Wii'' ''Puzzle''"

subsection \<open>Basic facts about frames\<close>

lemma select_rows_map:
  "select_rows df (map f df) = filter f df"
  unfolding select_rows_def
  by (induction df) auto

lemma filtered_df_filter:
  "filtered_df df yr p g = filter (\<lambda>(i, r). matches yr p g r) df"
proof -
  have "mask_and
          (mask_and
             (mask_and (series_ge (series Year df) (fst yr))
                       (series_le (series Year df) (snd yr)))
             (series_eq (series Platform df) p))
          (series_eq (series Genre df) g) = map (\<lambda>(i, r). matches yr p g r) df"
    by (induction df)
       (auto simp: mask_and_def series_ge_def series_le_def series_eq_def series_def
                   matches_def split: option.splits)
  then show ?thesis
    by (simp add: filtered_df_def select_rows_map)
qed

lemma set_unique: "set (unique xs) = set xs"
  by (induction xs rule: unique.induct) auto

lemma distinct_unique: "distinct (unique xs)"
  by (induction xs rule: unique.induct) (auto simp: set_unique)

lemma in_read_csv: "(i, r) \<in> set (read_csv rows) \<longleftrightarrow> i < length rows \<and> r = rows ! i"
  unfolding read_csv_def by (auto simp: in_set_zip intro: exI[of _ i])

lemma labels_read_csv: "map fst (read_csv rows) = [0..<length rows]"
  by (simp add: read_csv_def)

lemma pie_df_filter: "pie_df df p = filter (\<lambda>(i, r). Platform r = p) df"
proof -
  have "series_eq (series Platform df) p = map (\<lambda>(i, r). Platform r = p) df"
    by (simp add: series_eq_def series_def split_def)
  then show ?thesis
    by (simp add: pie_df_def select_rows_map)
qed

lemma set_genres: "set (genres df p) = {Genre r |i r. (i, r) \<in> set df \<and> Platform r = p}"
proof -
  have "genres df p = unique (series Genre (pie_df df p))"
    by (simp add: genres_def pie_df_def)
  then show ?thesis
    by (force simp: set_unique series_def pie_df_filter)
qed

lemma set_platforms: "set (platforms df) = {Platform r |i r. (i, r) \<in> set df}"
  by (force simp: platforms_def set_unique series_def)

lemma selectbox_member: "selectbox opts st = Some x \<Longrightarrow> x \<in> set opts"
proof (cases opts)
  case Nil
  assume "selectbox opts st = Some x"
  with Nil show ?thesis by (simp add: selectbox_def)
next
  case (Cons y ys)
  assume sel: "selectbox opts st = Some x"
  have "x = y \<or> (\<exists>i < length opts. x = opts ! i)"
    using sel Cons by (auto simp: selectbox_def split: option.splits if_splits)
  then show ?thesis
    using Cons nth_mem[of _ opts] by auto
qed

lemma selectbox_defined: "opts \<noteq> [] \<Longrightarrow> \<exists>x. selectbox opts st = Some x"
  by (auto simp: selectbox_def split: list.splits option.splits)

lemma selectbox_reset:
  "i < length old \<Longrightarrow> old ! i \<notin> set opts \<Longrightarrow> opts \<noteq> [] \<Longrightarrow>
   selectbox opts (Some (old, i)) = Some (hd opts)"
proof -
  assume i: "i < length old" and notin: "old ! i \<notin> set opts" and ne: "opts \<noteq> []"
  from i notin have "old \<noteq> opts" using nth_mem by metis
  with ne show ?thesis
    by (cases opts) (simp_all add: selectbox_def)
qed

lemma hd_sort_least:
  fixes xs :: "'a::linorder list"
  assumes "xs \<noteq> []"
  shows "hd (sort xs) \<in> set xs" and "\<forall>x \<in> set xs. hd (sort xs) \<le> x"
proof -
  from assms have ne: "sort xs \<noteq> []" by (metis length_0_conv length_sort)
  then obtain y ys where s: "sort xs = y # ys" by (cases "sort xs") auto
  have "set (y # ys) = set xs" using s by (metis set_sort)
  moreover have "sorted (y # ys)" using s by (metis sorted_sort)
  ultimately show "hd (sort xs) \<in> set xs" and "\<forall>x \<in> set xs. hd (sort xs) \<le> x"
    using s by auto
qed

subsection \<open>The filtered view\<close>

text \<open>
  C1. For every dataset and every valid filter state (a year range with low \<open>\<le>\<close> high,
  a platform of the dataset, a genre of that platform), the filtered view holds exactly
  the rows of the dataset whose Year lies in the range and whose Platform and Genre are
  the selected ones, and no row label occurs twice in it.
\<close>

theorem filtered_df_exact:
  assumes "fst yr \<le> snd yr"
    and "p \<in> set (platforms (read_csv rows))"
    and "g \<in> set (genres (read_csv rows) p)"
  shows "(\<forall>i r. (i, r) \<in> set (filtered_df (read_csv rows) yr p g) \<longleftrightarrow>
            i < length rows \<and> r = rows ! i \<and>
            (\<exists>y. Year r = Some y \<and> fst yr \<le> y \<and> y \<le> snd yr) \<and>
            Platform r = p \<and> Genre r = g)
       \<and> distinct (map fst (filtered_df (read_csv rows) yr p g))"
proof -
  have m: "matches yr p g r \<longleftrightarrow>
        (\<exists>y. Year r = Some y \<and> fst yr \<le> y \<and> y \<le> snd yr) \<and> Platform r = p \<and> Genre r = g" for r
    by (auto simp: matches_def split: option.splits)
  have "distinct (map fst (read_csv rows))"
    by (simp add: labels_read_csv)
  then have "distinct (map fst (filtered_df (read_csv rows) yr p g))"
    unfolding filtered_df_filter by (rule distinct_map_filter)
  moreover have "(i, r) \<in> set (filtered_df (read_csv rows) yr p g) \<longleftrightarrow>
            i < length rows \<and> r = rows ! i \<and>
            (\<exists>y. Year r = Some y \<and> fst yr \<le> y \<and> y \<le> snd yr) \<and>
            Platform r = p \<and> Genre r = g" for i r
    by (simp add: filtered_df_filter in_read_csv m)
  ultimately show ?thesis by blast
qed

theorem filtered_df_exact_witness:
  "fst (1980 :: int, 2020 :: int) \<le> snd (1980 :: int, 2020 :: int)
   \<and> ''Wii'' \<in> set (platforms (read_csv example_rows))
   \<and> ''Sports'' \<in> set (genres (read_csv example_rows) ''Wii'')
   \<and> (\<forall>i r. (i, r) \<in> set (filtered_df (read_csv example_rows) (1980, 2020) ''Wii'' ''Sports'') \<longleftrightarrow>
            i < length example_rows \<and> r = example_rows ! i \<and>
            (\<exists>y. Year r = Some y \<and> fst (1980 :: int, 2020 :: int) \<le> y \<and> y \<le> snd (1980 :: int, 2020 :: int)) \<and>
            Platform r = ''Wii'' \<and> Genre r = ''Sports'')
   \<and> distinct (map fst (filtered_df (read_csv example_rows) (1980, 2020) ''Wii'' ''Sports''))
   \<and> map fst (filtered_df (read_csv example_rows) (1980, 2020) ''Wii'' ''Sports'') = [0]"
proof -
  have h1: "fst (1980 :: int, 2020 :: int) \<le> snd (1980 :: int, 2020 :: int)" by simp
  have h2: "''Wii'' \<in> set (platforms (read_csv example_rows))" by code_simp
  have h3: "''Sports'' \<in> set (genres (read_csv example_rows) ''Wii'')" by code_simp
  have h4: "map fst (filtered_df (read_csv example_rows) (1980, 2020) ''Wii'' ''Sports'') = [0]"
    by code_simp
  from filtered_df_exact[OF h1 h2 h3] h1 h2 h3 h4 show ?thesis by blast
qed

subsection \<open>Cascading filters\<close>

lemma genres_nonempty:
  assumes "p \<in> set (platforms df)"
  shows "genres df p \<noteq> []"
proof -
  from assms obtain i r where "(i, r) \<in> set df" "Platform r = p"
    by (auto simp: set_platforms)
  then have "Genre r \<in> set (genres df p)"
    by (auto simp: set_genres)
  then show ?thesis by auto
qed

text \<open>
  C4. After every platform selection \<open>p\<close>, the genre domain is the set of distinct Genre
  values of the dataset rows with Platform \<open>p\<close>, and the selected genre is a member of
  it, whatever the genre select box remembered before.
\<close>

theorem genre_in_domain:
  assumes "selected_platform df st_p = Some p"
  shows "set (genres df p) = {Genre r |i r. (i, r) \<in> set df \<and> Platform r = p}
       \<and> distinct (genres df p)
       \<and> (\<exists>g. selected_genre df p st_g = Some g \<and> g \<in> set (genres df p))"
proof -
  from assms have p: "p \<in> set (platforms df)"
    unfolding selected_platform_def by (rule selectbox_member)
  then have "sort (genres df p) \<noteq> []"
    using genres_nonempty[OF p] by (metis length_0_conv length_sort)
  then obtain g where g: "selected_genre df p st_g = Some g"
    unfolding selected_genre_def using selectbox_defined by blast
  then have "g \<in> set (sort (genres df p))"
    unfolding selected_genre_def by (rule selectbox_member)
  then have "g \<in> set (genres df p)" by simp
  moreover have "distinct (genres df p)"
    by (simp add: genres_def distinct_unique)
  ultimately show ?thesis
    using g set_genres[of df p] by blast
qed

theorem genre_in_domain_witness:
  "selected_platform example_df (Some ([''NES'', ''Wii''], 1)) = Some ''Wii''
   \<and> set (genres example_df ''Wii'') = {Genre r |i r. (i, r) \<in> set example_df \<and> Platform r = ''Wii''}
   \<and> distinct (genres example_df ''Wii'')
   \<and> (\<exists>g. selected_genre example_df ''Wii'' (Some ([''Racing'', ''Sports''], 1)) = Some g
          \<and> g \<in> set (genres example_df ''Wii''))
   \<and> genres example_df ''Wii'' = [''Sports'', ''Racing'']
   \<and> selected_genre example_df ''Wii'' (Some ([''Racing'', ''Sports''], 1)) = Some ''Sports''"
proof -
  have h: "selected_platform example_df (Some ([''NES'', ''Wii''], 1)) = Some ''Wii''"
    by code_simp
  have e1: "genres example_df ''Wii'' = [''Sports'', ''Racing'']" by code_simp
  have e2: "selected_genre example_df ''Wii'' (Some ([''Racing'', ''Sports''], 1)) = Some ''Sports''"
    by code_simp
  from genre_in_domain[OF h, of "Some ([''Racing'', ''Sports''], 1)"] h e1 e2
  show ?thesis by blast
qed

text \<open>
  C5. When the platform changes and the genre selected before (the option at the
  remembered index of the old option list) is not a genre of the new platform, the
  selected genre is the first element of the sorted new domain, which is its least
  element. With the Wii rows of the example, coming from "Shooter", it is "Racing".
\<close>

theorem genre_reset_to_first:
  assumes "selected_platform df st_p = Some p"
    and "i < length old"
    and "old ! i \<notin> set (genres df p)"
  shows "\<exists>g. selected_genre df p (Some (old, i)) = Some g
           \<and> g = hd (sort (genres df p))
           \<and> g \<in> set (genres df p)
           \<and> (\<forall>g' \<in> set (genres df p). g \<le> g')"
proof -
  from assms(1) have p: "p \<in> set (platforms df)"
    unfolding selected_platform_def by (rule selectbox_member)
  have ne: "genres df p \<noteq> []" by (rule genres_nonempty[OF p])
  then have ne': "sort (genres df p) \<noteq> []" by (metis length_0_conv length_sort)
  from assms(3) have "old ! i \<notin> set (sort (genres df p))" by simp
  from selectbox_reset[OF assms(2) this ne']
  have "selected_genre df p (Some (old, i)) = Some (hd (sort (genres df p)))"
    by (simp add: selected_genre_def)
  with hd_sort_least[OF ne] show ?thesis by blast
qed

theorem genre_reset_to_first_witness:
  "selected_platform example_df (Some ([''NES'', ''Wii''], 1)) = Some ''Wii''
   \<and> (0 :: nat) < length [''Shooter'']
   \<and> [''Shooter''] ! 0 \<notin> set (genres example_df ''Wii'')
   \<and> (\<exists>g. selected_genre example_df ''Wii'' (Some ([''Shooter''], 0)) = Some g
           \<and> g = hd (sort (genres example_df ''Wii''))
           \<and> g \<in> set (genres example_df ''Wii'')
           \<and> (\<forall>g' \<in> set (genres example_df ''Wii''). g \<le> g'))
   \<and> selected_genre example_df ''Wii'' (Some ([''Shooter''], 0)) = Some ''Racing''"
proof -
  have h1: "selected_platform example_df (Some ([''NES'', ''Wii''], 1)) = Some ''Wii''"
    by code_simp
  have h2: "(0 :: nat) < length [''Shooter'']" by simp
  have h3: "[''Shooter''] ! 0 \<notin> set (genres example_df ''Wii'')" by code_simp
  have e: "selected_genre example_df ''Wii'' (Some ([''Shooter''], 0)) = Some ''Racing''"
    by code_simp
  from genre_reset_to_first[OF h1 h2 h3] h1 h2 h3 e show ?thesis by blast
qed

subsection \<open>Input of the genre-share and box-plot panels\<close>

text \<open>
  C7. The frame handed to the genre-share pie and to the box plot holds exactly the
  dataset rows of the selected platform. The year range and the genre are not applied:
  the filtered view is contained in it, and a row of the platform with another genre,
  or with a Year that is absent or outside the range, is in it and not in the filtered
  view.
\<close>

theorem pie_df_platform_only:
  "(\<forall>i r. (i, r) \<in> set (pie_df df p) \<longleftrightarrow> (i, r) \<in> set df \<and> Platform r = p)
   \<and> set (filtered_df df yr p g) \<subseteq> set (pie_df df p)
   \<and> (\<forall>i r. (i, r) \<in> set df \<and> Platform r = p \<and>
         (Genre r \<noteq> g \<or> (\<forall>y. Year r = Some y \<longrightarrow> y < fst yr \<or> snd yr < y)) \<longrightarrow>
         (i, r) \<in> set (pie_df df p) \<and> (i, r) \<notin> set (filtered_df df yr p g))"
  by (auto simp: pie_df_filter filtered_df_filter matches_def split: option.splits)

theorem pie_df_platform_only_witness:
  "(2, example_rows ! 2) \<in> set example_df \<and> Platform (example_rows ! 2) = ''Wii''
   \<and> (1, example_rows ! 1) \<in> set example_df \<and> Platform (example_rows ! 1) = ''Wii''
   \<and> Genre (example_rows ! 1) \<noteq> ''Sports''
   \<and> Year (example_rows ! 2) = None
   \<and> (1, example_rows ! 1) \<in> set (pie_df example_df ''Wii'')
   \<and> (1, example_rows ! 1) \<notin> set (filtered_df example_df (1980, 2020) ''Wii'' ''Sports'')
   \<and> (2, example_rows ! 2) \<in> set (pie_df example_df ''Wii'')
   \<and> (2, example_rows ! 2) \<notin> set (filtered_df example_df (1980, 2020) ''Wii'' ''Sports'')
   \<and> map fst (pie_df example_df ''Wii'') = [0, 1, 2, 4]
   \<and> map fst (filtered_df example_df (1980, 2020) ''Wii'' ''Sports'') = [0]"
proof -
  have a: "(2, example_rows ! 2) \<in> set example_df" "(1, example_rows ! 1) \<in> set example_df"
    by (simp_all add: example_df_def in_read_csv example_rows_def)
  have b: "Platform (example_rows ! 2) = ''Wii''" "Platform (example_rows ! 1) = ''Wii''"
    "Genre (example_rows ! 1) \<noteq> ''Sports''"
    "Year (example_rows ! 2) = None"
    by (simp_all add: example_rows_def)
  have c: "map fst (pie_df example_df ''Wii'') = [0, 1, 2, 4]"
    "map fst (filtered_df example_df (1980, 2020) ''Wii'' ''Sports'') = [0]"
    by code_simp+
  from pie_df_platform_only[of example_df "''Wii''" "(1980, 2020)" "''Sports''"] a b c
  show ?thesis by auto
qed

subsection \<open>Rows without a Year\<close>

lemma py_min_Min: "xs \<noteq> [] \<Longrightarrow> py_min xs = Inr (Min (set xs))"
  by (cases xs) (simp_all add: Min.set_eq_fold[symmetric])

lemma py_max_Max: "xs \<noteq> [] \<Longrightarrow> py_max xs = Inr (Max (set xs))"
  by (cases xs) (simp_all add: Max.set_eq_fold[symmetric])

lemma set_dropna: "set (dropna xs) = {y. Some y \<in> set xs}"
  by (induction xs) (auto simp: dropna_def split: option.splits)

lemma dropna_present_rows:
  "dropna (series Year (filter (\<lambda>(i, r). Year r \<noteq> None) df)) = dropna (series Year df)"
  by (induction df) (auto simp: dropna_def series_def)

lemma set_years: "set (years df) = {y. Some y \<in> set (series Year df)}"
  by (simp add: years_def set_unique set_dropna)

text \<open>
  C10. A row whose Year is absent is never in the filtered view, for any year range,
  and the bounds of the year slider are computed as if such rows were not in the
  dataset: they are the least and the greatest Year that is present.
\<close>

theorem absent_year_ignored:
  "(\<forall>(i, r) \<in> set (filtered_df df yr p g). Year r \<noteq> None)
   \<and> years df = years (filter (\<lambda>(i, r). Year r \<noteq> None) df)
   \<and> year_bounds df = year_bounds (filter (\<lambda>(i, r). Year r \<noteq> None) df)
   \<and> ((\<exists>y. Some y \<in> set (series Year df)) \<longrightarrow>
        year_bounds df = Inr (Min {y. Some y \<in> set (series Year df)},
                              Max {y. Some y \<in> set (series Year df)}))"
proof -
  have 1: "\<forall>(i, r) \<in> set (filtered_df df yr p g). Year r \<noteq> None"
    by (auto simp: filtered_df_filter matches_def split: option.splits)
  have 2: "years df = years (filter (\<lambda>(i, r). Year r \<noteq> None) df)"
    by (simp only: years_def dropna_present_rows)
  have 3: "year_bounds df = year_bounds (filter (\<lambda>(i, r). Year r \<noteq> None) df)"
    unfolding year_bounds_def by (subst (1 2) 2) (rule refl)
  have 4: "year_bounds df = Inr (Min {y. Some y \<in> set (series Year df)},
                              Max {y. Some y \<in> set (series Year df)})"
    if "\<exists>y. Some y \<in> set (series Year df)"
  proof -
    from that have "years df \<noteq> []" using set_years[of df] by auto
    then show ?thesis
      by (simp add: year_bounds_def py_min_Min py_max_Max set_years)
  qed
  from 1 2 3 4 show ?thesis by blast
qed

theorem absent_year_ignored_witness:
  "\<not> (\<exists>i r. (i, r) \<in> set (filtered_df example_df (1980, 2020) ''Wii'' ''Sports'') \<and> Year r = None)
   \<and> (\<exists>y. Some y \<in> set (series Year example_df))
   \<and> year_bounds example_df = Inr (Min {y. Some y \<in> set (series Year example_df)},
                              Max {y. Some y \<in> set (series Year example_df)})
   \<and> year_bounds example_df = Inr (1984, 2008)
   \<and> None \<in> set (series Year example_df)
   \<and> filtered_df example_df (1980, 2020) ''Wii'' ''Sports'' \<noteq> []"
proof -
  have a: "Some 2006 \<in> set (series Year example_df)" by code_simp
  have b: "year_bounds example_df = Inr (1984, 2008)" by code_simp
  have c: "None \<in> set (series Year example_df)" by code_simp
  have d: "filtered_df example_df (1980, 2020) ''Wii'' ''Sports'' \<noteq> []" by code_simp
  from absent_year_ignored[of example_df "(1980, 2020)" "''Wii''" "''Sports''"] a b c d
  show ?thesis by fastforce
qed

subsection \<open>Regional sales map\<close>

text \<open>
  C9. For every view the map data has one entry per region, in the order North America,
  Europe, Japan, Other; its sales value is the sum of that region's sales column over
  the view, and its coordinates are the constants of \<open>region_data\<close>.
\<close>

theorem map_data_region_totals:
  "map_data view =
     [(''North America'', sum_list (series NA_Sales view), 40, - 100),
      (''Europe'', sum_list (series EU_Sales view), 545 / 10, 153 / 10),
      (''Japan'', sum_list (series JP_Sales view), 362 / 10, 1382 / 10),
      (''Other'', sum_list (series Other_Sales view), - (88 / 10), 1152 / 10)]"
  by (simp add: map_data_def region_data_def sales_column_def)

subsection \<open>Summary metrics on an empty view\<close>

text \<open>
  C2. With the year range 1980 to 1990 no Wii sports game of the example matches, so
  the filtered view is empty. The total of global sales and the number of games are
  both 0 there, but the top publisher is not a value: \<open>idxmax\<close> of the empty series
  of group sums raises ValueError.
\<close>

theorem top_publisher_empty_view:
  "filtered_df example_df (1980, 1990) ''Wii'' ''Sports'' = []
   \<and> total_global_sales (filtered_df example_df (1980, 1990) ''Wii'' ''Sports'') = 0
   \<and> total_games (filtered_df example_df (1980, 1990) ''Wii'' ''Sports'') = 0
   \<and> top_publisher (filtered_df example_df (1980, 1990) ''Wii'' ''Sports'') = Inl ValueError"
proof -
  have e: "filtered_df example_df (1980, 1990) ''Wii'' ''Sports'' = []"
    by code_simp
  show ?thesis
    unfolding e
    by (simp add: total_global_sales_def total_games_def top_publisher_def groupby_sum_def series_def)
qed

subsection \<open>Games released per year\<close>

lemma count_dropna_year:
  "count_list (dropna (series Year view)) y = length (filter (\<lambda>(i, r). Year r = Some y) view)"
  by (induction view) (auto simp: dropna_def series_def split: option.splits)

lemma games_year_entries:
  assumes "e \<in> set (games_year view)"
  shows "e = (fst e, length (filter (\<lambda>(i, r). Year r = Some (fst e)) view))"
proof -
  from assms have "e \<in> set (map (\<lambda>y. (y, count_list (dropna (series Year view)) y))
                            (unique (dropna (series Year view))))"
    by (simp add: games_year_def sort_index_def value_counts_def)
  then show ?thesis
    by (auto simp: count_dropna_year)
qed

lemma games_year_keys:
  "map fst (games_year view) = sorted_list_of_set {y. Some y \<in> set (series Year view)}"
proof -
  let ?D = "dropna (series Year view)"
  let ?L = "map (\<lambda>y. (y, count_list ?D y)) (unique ?D)"
  have fstL: "map fst ?L = unique ?D" by (simp add: comp_def)
  have "mset (games_year view) = mset ?L"
    by (simp add: games_year_def sort_index_def value_counts_def)
  then have "mset (map fst (games_year view)) = mset (map fst ?L)"
    by (simp only: mset_map)
  then have m: "mset (map fst (games_year view)) = mset (unique ?D)"
    by (simp only: fstL)
  have d: "distinct (map fst (games_year view))"
    using mset_eq_imp_distinct_iff[OF m] distinct_unique[of ?D] by simp
  have s: "set (map fst (games_year view)) = {y. Some y \<in> set (series Year view)}"
    using mset_eq_setD[OF m] by (simp only: set_unique set_dropna)
  have "sorted (map fst (games_year view))"
    by (simp add: games_year_def sort_index_def)
  from sorted_list_of_set.idem_if_sorted_distinct[OF this d] s show ?thesis
    by simp
qed

text \<open>
  C8. For every view, the per-year release counts have one entry for each Year value
  present in the view, in strictly ascending order of Year, and the count of an entry is
  the number of rows of the view with that Year.
\<close>

theorem games_year_counts:
  "games_year view =
     map (\<lambda>y. (y, length (filter (\<lambda>(i, r). Year r = Some y) view)))
         (sorted_list_of_set {y. \<exists>i r. (i, r) \<in> set view \<and> Year r = Some y})
   \<and> sorted_wrt (<) (map fst (games_year view))"
proof -
  have set_eq: "{y. \<exists>i r. (i, r) \<in> set view \<and> Year r = Some y} = {y. Some y \<in> set (series Year view)}"
    by (force simp: series_def)
  have "map (\<lambda>e. (fst e, length (filter (\<lambda>(i, r). Year r = Some (fst e)) view))) (games_year view)
        = games_year view"
    by (rule map_idI) (use games_year_entries in \<open>simp\<close>)
  then have "games_year view = map (\<lambda>y. (y, length (filter (\<lambda>(i, r). Year r = Some y) view)))
                              (map fst (games_year view))"
    by (simp add: comp_def)
  then have 1: "games_year view =
     map (\<lambda>y. (y, length (filter (\<lambda>(i, r). Year r = Some y) view)))
         (sorted_list_of_set {y. \<exists>i r. (i, r) \<in> set view \<and> Year r = Some y})"
    by (simp only: games_year_keys set_eq)
  have "sorted_wrt (<) (map fst (games_year view))"
    by (simp only: games_year_keys strict_sorted_list_of_set)
  with 1 show ?thesis by blast
qed

subsection \<open>Top 10 games\<close>

declare sift.simps [simp del] scan_up.simps [simp del] 

subsubsection \<open>Insertion sort\<close>

lemma mset_insert_down: "mset (insert_down v x ks) = add_mset x (mset ks)"
  by (induction ks) auto

lemma sorted_insert_down:
  "sorted_wrt (\<lambda>a b. v ! b \<le> v ! a) ks \<Longrightarrow> sorted_wrt (\<lambda>a b. v ! b \<le> v ! a) (insert_down v x ks)"
proof (induction ks)
  case Nil
  then show ?case by simp
next
  case (Cons k ks)
  have "set (insert_down v x ks) = insert x (set ks)"
    using mset_insert_down[of v x ks] by (metis set_mset_add_mset_insert set_mset_mset)
  with Cons show ?case by auto
qed

lemma fold_insert_down:
  "mset (fold (insert_down v) s acc) = mset s + mset acc"
  "sorted_wrt (\<lambda>a b. v ! b \<le> v ! a) acc \<Longrightarrow>
   sorted_wrt (\<lambda>a b. v ! b \<le> v ! a) (fold (insert_down v) s acc)"
  by (induction s arbitrary: acc) (simp_all add: mset_insert_down sorted_insert_down)

lemma insertion_sort_correct:
  "mset (insertion_sort v s) = mset s"
  "sorted_wrt (\<lambda>a b. v ! a \<le> v ! b) (insertion_sort v s)"
proof -
  show "mset (insertion_sort v s) = mset s"
    by (simp add: insertion_sort_def fold_insert_down(1))
  have "sorted_wrt (\<lambda>a b. v ! b \<le> v ! a) (fold (insert_down v) s [])"
    by (rule fold_insert_down(2)) simp
  then show "sorted_wrt (\<lambda>a b. v ! a \<le> v ! b) (insertion_sort v s)"
    by (simp add: insertion_sort_def sorted_wrt_rev)
qed

subsubsection \<open>Partition, heapsort and quicksort\<close>

lemma length_swap [simp]: "length (intp_swap i j s) = length s"
  by (simp add: intp_swap_def)

lemma mset_swap_seg: "i < length s \<Longrightarrow> j < length s \<Longrightarrow> mset (intp_swap i j s) = mset s"
  unfolding intp_swap_def by (metis mset_swap)

lemma nth_swap:
  "i < length s \<Longrightarrow> j < length s \<Longrightarrow>
   intp_swap i j s ! k = (if k = j then s ! i else if k = i then s ! j else s ! k)"
  by (auto simp: intp_swap_def nth_list_update)

lemma scan_up_unfold:
  "scan_up v vp s i = (if i < length s \<and> v ! (s ! i) < vp then scan_up v vp s (Suc i) else i)"
  by (subst scan_up.simps) auto

lemma scan_up_ge: "i \<le> scan_up v vp s i"
proof (induction v vp s i rule: scan_up.induct)
  case (1 v vp s i)
  show ?case
  proof (cases "i < length s \<and> v ! (s ! i) < vp")
    case True
    with 1 have "i + 1 \<le> scan_up v vp s (i + 1)" by simp
    moreover have "scan_up v vp s i = scan_up v vp s (i + 1)"
      using True by (subst scan_up.simps) auto
    ultimately show ?thesis by simp
  next
    case False
    then have "scan_up v vp s i = i" by (subst scan_up.simps) auto
    then show ?thesis by simp
  qed
qed

lemma scan_up_below: "i \<le> k \<Longrightarrow> k < scan_up v vp s i \<Longrightarrow> v ! (s ! k) < vp"
proof (induction v vp s i rule: scan_up.induct)
  case (1 v vp s i)
  show ?case
  proof (cases "i < length s \<and> v ! (s ! i) < vp")
    case True
    then have eq: "scan_up v vp s i = scan_up v vp s (i + 1)"
      by (subst scan_up.simps) auto
    show ?thesis
    proof (cases "k = i")
      case True
      with \<open>i < length s \<and> v ! (s ! i) < vp\<close> show ?thesis by simp
    next
      case False
      with "1.prems" have "i + 1 \<le> k" by simp
      moreover have "k < scan_up v vp s (i + 1)" using "1.prems" eq by simp
      ultimately show ?thesis using "1.IH"[OF True] by simp
    qed
  next
    case False
    then have "scan_up v vp s i = i" by (subst scan_up.simps) auto
    with "1.prems" show ?thesis by simp
  qed
qed

lemma scan_up_stop: "i \<le> k \<Longrightarrow> k < length s \<Longrightarrow> \<not> v ! (s ! k) < vp \<Longrightarrow> scan_up v vp s i \<le> k"
proof (induction v vp s i rule: scan_up.induct)
  case (1 v vp s i)
  show ?case
  proof (cases "i < length s \<and> v ! (s ! i) < vp")
    case True
    then have eq: "scan_up v vp s i = scan_up v vp s (i + 1)"
      by (subst scan_up.simps) auto
    from True "1.prems" have "k \<noteq> i" by auto
    with "1.prems" have "i + 1 \<le> k" by simp
    from "1.IH"[OF True this "1.prems"(2,3)] eq show ?thesis by simp
  next
    case False
    then have "scan_up v vp s i = i" by (subst scan_up.simps) auto
    with "1.prems" show ?thesis by simp
  qed
qed

lemma scan_up_at: "scan_up v vp s i < length s \<Longrightarrow> \<not> v ! (s ! scan_up v vp s i) < vp"
proof (induction v vp s i rule: scan_up.induct)
  case (1 v vp s i)
  show ?case
  proof (cases "i < length s \<and> v ! (s ! i) < vp")
    case True
    then have eq: "scan_up v vp s i = scan_up v vp s (i + 1)"
      by (subst scan_up.simps) auto
    with "1.IH"[OF True] "1.prems" show ?thesis by simp
  next
    case False
    then have "scan_up v vp s i = i" by (subst scan_up.simps) auto
    with False "1.prems" show ?thesis by simp
  qed
qed

lemma scan_down_le: "scan_down v vp s j \<le> j"
  by (induction j) auto

lemma scan_down_above: "scan_down v vp s j < k \<Longrightarrow> k \<le> j \<Longrightarrow> vp < v ! (s ! k)"
  by (induction j) (auto simp: le_Suc_eq split: if_splits)

lemma scan_down_stop: "k \<le> j \<Longrightarrow> \<not> vp < v ! (s ! k) \<Longrightarrow> k \<le> scan_down v vp s j"
  by (induction j) (auto simp: le_Suc_eq)

lemma scan_down_at: "k \<le> j \<Longrightarrow> \<not> vp < v ! (s ! k) \<Longrightarrow> \<not> vp < v ! (s ! scan_down v vp s j)"
  by (induction j) (auto simp: le_Suc_eq)

termination hoare
proof (relation "measure (\<lambda>(v, vp, s, i, j). j - i)", goal_cases)
  case 1
  show ?case by simp
next
  case (2 v vp s i j i' j')
  have "i + 1 \<le> i'" using 2(1) scan_up_ge by simp
  moreover have "j' \<le> j - 1" using 2(2) scan_down_le by simp
  ultimately show ?case using 2(3) by simp
qed

declare hoare.simps [simp del]

lemma hoare_spec:
  assumes "hoare v vp s i j = (s', p)"
    and "i < j" and "j < length s"
    and "\<forall>k \<le> i. v ! (s ! k) \<le> vp"
    and "\<forall>k. j \<le> k \<and> k < length s \<longrightarrow> vp \<le> v ! (s ! k)"
  shows "mset s' = mset s \<and> length s' = length s \<and> i < p \<and> p \<le> j
       \<and> (\<forall>k < p. v ! (s' ! k) \<le> vp)
       \<and> (\<forall>k. p \<le> k \<and> k < length s \<longrightarrow> vp \<le> v ! (s' ! k))
       \<and> (\<forall>k. j \<le> k \<and> k < length s \<longrightarrow> s' ! k = s ! k)"
  using assms
proof (induction v vp s i j arbitrary: s' p rule: hoare.induct)
  case (1 v vp s i j)
  define i' where "i' = scan_up v vp s (i + 1)"
  define j' where "j' = scan_down v vp s (j - 1)"
  note low = "1.prems"(4) and high = "1.prems"(5)
  have ij: "i < j" and jl: "j < length s" using "1.prems" by simp_all
  have i'1: "i + 1 \<le> i'" unfolding i'_def by (rule scan_up_ge)
  have "\<not> v ! (s ! j) < vp" using high jl by (simp add: not_less)
  then have i'j: "i' \<le> j" unfolding i'_def using ij jl by (intro scan_up_stop) simp_all
  have j'1: "j' \<le> j - 1" unfolding j'_def by (rule scan_down_le)
  have nlow: "\<not> vp < v ! (s ! i)" using low by (simp add: not_less)
  have ij': "i \<le> j'" unfolding j'_def using ij nlow by (intro scan_down_stop) simp_all
  have atj': "\<not> vp < v ! (s ! j')" unfolding j'_def using ij nlow
    by (intro scan_down_at[of i]) simp_all
  have ati': "\<not> v ! (s ! i') < vp" unfolding i'_def
    using i'j jl by (intro scan_up_at) (simp add: i'_def)
  have below: "v ! (s ! k) \<le> vp" if "k < i'" for k
  proof (cases "k \<le> i")
    case True
    then show ?thesis using low by simp
  next
    case False
    then have "i + 1 \<le> k" by simp
    from scan_up_below[OF this] that show ?thesis by (simp add: i'_def less_imp_le)
  qed
  have above: "vp \<le> v ! (s ! k)" if "j' < k" "k < length s" for k
  proof (cases "j \<le> k")
    case True
    then show ?thesis using high that by simp
  next
    case False
    then have "k \<le> j - 1" by simp
    from scan_down_above[OF _ this] that show ?thesis by (simp add: j'_def less_imp_le)
  qed
  have unf: "hoare v vp s i j = (if j' \<le> i' then (s, i') else hoare v vp (intp_swap i' j' s) i' j')"
    by (subst hoare.simps) (simp add: i'_def j'_def Let_def)
  show ?case
  proof (cases "j' \<le> i'")
    case True
    with unf "1.prems"(1) have res: "s' = s" "p = i'" by simp_all
    have "vp \<le> v ! (s ! k)" if "i' \<le> k" "k < length s" for k
    proof (cases "j' < k")
      case True
      then show ?thesis using above that by simp
    next
      case False
      with \<open>j' \<le> i'\<close> that have "k = i'" by simp
      then show ?thesis using ati' by simp
    qed
    with below i'1 i'j show ?thesis unfolding res by auto
  next
    case False
    then have lt: "i' < j'" by simp
    have j'l: "j' < length s" using j'1 jl by simp
    have i'l: "i' < length s" using lt j'l by simp
    from unf False "1.prems"(1) have rec: "hoare v vp (intp_swap i' j' s) i' j' = (s', p)" by simp
    have low2: "\<forall>k \<le> i'. v ! (intp_swap i' j' s ! k) \<le> vp"
    proof (intro allI impI)
      fix k assume "k \<le> i'"
      show "v ! (intp_swap i' j' s ! k) \<le> vp"
      proof (cases "k = i'")
        case True
        then show ?thesis using atj' lt i'l j'l by (simp add: nth_swap not_less)
      next
        case False
        with \<open>k \<le> i'\<close> have "k < i'" by simp
        then show ?thesis using below lt i'l j'l by (simp add: nth_swap)
      qed
    qed
    have high2: "\<forall>k. j' \<le> k \<and> k < length (intp_swap i' j' s) \<longrightarrow> vp \<le> v ! (intp_swap i' j' s ! k)"
    proof (intro allI impI)
      fix k assume k: "j' \<le> k \<and> k < length (intp_swap i' j' s)"
      show "vp \<le> v ! (intp_swap i' j' s ! k)"
      proof (cases "k = j'")
        case True
        then show ?thesis using ati' lt i'l j'l by (simp add: nth_swap not_less)
      next
        case False
        with k have "j' < k" "k < length s" by simp_all
        then show ?thesis using above lt i'l j'l by (simp add: nth_swap)
      qed
    qed
    have "i' = scan_up v vp s (i + 1)" "j' = scan_down v vp s (j - 1)" "\<not> j' \<le> i'"
      using False by (simp_all add: i'_def j'_def)
    from "1.IH"[OF this rec lt _ low2 high2] j'l
    have IH: "mset s' = mset (intp_swap i' j' s)" "length s' = length s" "i' < p" "p \<le> j'"
      "\<forall>k < p. v ! (s' ! k) \<le> vp"
      "\<forall>k. p \<le> k \<and> k < length s \<longrightarrow> vp \<le> v ! (s' ! k)"
      "\<forall>k. j' \<le> k \<and> k < length s \<longrightarrow> s' ! k = intp_swap i' j' s ! k"
      by simp_all
    have "s' ! k = s ! k" if "j \<le> k" "k < length s" for k
    proof -
      have "j' < k" using j'1 that ij by simp
      then show ?thesis using IH(7) that lt i'l j'l by (simp add: nth_swap)
    qed
    moreover have "mset s' = mset s" using IH(1) mset_swap_seg[OF i'l j'l] by simp
    ultimately show ?thesis using IH i'1 j'1 by auto
  qed
qed

lemma median3_spec:
  assumes "3 \<le> length s"
  shows "mset (median3 v s) = mset s \<and> length (median3 v s) = length s
       \<and> v ! (median3 v s ! 0) \<le> v ! (median3 v s ! ((length s - 1) div 2))
       \<and> v ! (median3 v s ! ((length s - 1) div 2)) \<le> v ! (median3 v s ! (length s - 1))"
proof -
  define pr where "pr = length s - 1"
  define pm where "pm = pr div 2"
  have b: "0 < pm" "pm < pr" "pr < length s" "pm < length s" "0 < length s"
    using assms by (auto simp: pr_def pm_def)
  define s1 where "s1 = (if v ! (s ! pm) < v ! (s ! 0) then intp_swap pm 0 s else s)"
  define s2 where "s2 = (if v ! (s1 ! pr) < v ! (s1 ! pm) then intp_swap pr pm s1 else s1)"
  define s3 where "s3 = (if v ! (s2 ! pm) < v ! (s2 ! 0) then intp_swap pm 0 s2 else s2)"
  have m: "median3 v s = s3"
    by (simp add: median3_def Let_def s3_def s2_def s1_def pm_def pr_def)
  have l1: "length s1 = length s" by (simp add: s1_def)
  have l2: "length s2 = length s" by (simp add: s2_def l1)
  have l3: "length s3 = length s" by (simp add: s3_def l2)
  have m1: "mset s1 = mset s" using b by (simp add: s1_def mset_swap_seg)
  have m2: "mset s2 = mset s" using b m1 l1 by (simp add: s2_def mset_swap_seg)
  have m3: "mset s3 = mset s" using b m2 l2 by (simp add: s3_def mset_swap_seg)
  have o1: "v ! (s1 ! 0) \<le> v ! (s1 ! pm)"
    using b by (auto simp: s1_def nth_swap)
  have o2: "v ! (s2 ! pm) \<le> v ! (s2 ! pr)" "v ! (s2 ! 0) \<le> v ! (s2 ! pr)"
    using b o1 l1 by (auto simp: s2_def nth_swap)
  have o3: "v ! (s3 ! 0) \<le> v ! (s3 ! pm)" "v ! (s3 ! pm) \<le> v ! (s3 ! pr)"
    using b o2 l2 by (auto simp: s3_def nth_swap)
  show ?thesis
    using m3 l3 o3 unfolding m by (simp add: pm_def pr_def)
qed

lemma partition_spec:
  assumes "3 \<le> length s" and "qs_partition v s = (s', p)"
  shows "mset s' = mset s \<and> length s' = length s \<and> 0 < p \<and> p < length s - 1
       \<and> (\<forall>k < p. v ! (s' ! k) \<le> v ! (s' ! p))
       \<and> (\<forall>k. p < k \<and> k < length s \<longrightarrow> v ! (s' ! p) \<le> v ! (s' ! k))"
proof -
  define pr where "pr = length s - 1"
  define pm where "pm = pr div 2"
  define s3 where "s3 = median3 v s"
  define vp where "vp = v ! (s3 ! pm)"
  define s4 where "s4 = intp_swap pm (pr - 1) s3"
  obtain s5 q where h: "hoare v vp s4 0 (pr - 1) = (s5, q)" by (cases "hoare v vp s4 0 (pr - 1)")
  have b: "0 < pm" "pm < pr" "pr < length s" "0 < pr - 1" "pm \<le> pr - 1" "Suc (pr - 1) = pr"
    using assms(1) by (auto simp: pr_def pm_def)
  from median3_spec[OF assms(1), of v]
  have med: "mset s3 = mset s" "length s3 = length s" "v ! (s3 ! 0) \<le> vp" "vp \<le> v ! (s3 ! pr)"
    by (simp_all add: s3_def vp_def pm_def pr_def)
  have l4: "length s4 = length s" by (simp add: s4_def med)
  have m4: "mset s4 = mset s" using b med by (simp add: s4_def mset_swap_seg)
  have n4: "s4 ! 0 = s3 ! 0" "s4 ! pr = s3 ! pr" "s4 ! (pr - 1) = s3 ! pm"
    using b med by (auto simp: s4_def nth_swap)
  have low: "\<forall>k \<le> 0. v ! (s4 ! k) \<le> vp" using n4 med by simp
  have high: "\<forall>k. pr - 1 \<le> k \<and> k < length s4 \<longrightarrow> vp \<le> v ! (s4 ! k)"
  proof (intro allI impI)
    fix k assume "pr - 1 \<le> k \<and> k < length s4"
    then have "k = pr - 1 \<or> k = pr" using l4 b by (auto simp: pr_def)
    then show "vp \<le> v ! (s4 ! k)" using n4 med by (auto simp: vp_def)
  qed
  have "pr - 1 < length s4" using l4 b by simp
  from hoare_spec[OF h b(4) this low high]
  have H: "mset s5 = mset s" "length s5 = length s" "0 < q" "q \<le> pr - 1"
    "\<forall>k < q. v ! (s5 ! k) \<le> vp"
    "\<forall>k. q \<le> k \<and> k < length s \<longrightarrow> vp \<le> v ! (s5 ! k)"
    "\<forall>k. pr - 1 \<le> k \<and> k < length s \<longrightarrow> s5 ! k = s4 ! k"
    by (simp_all add: m4 l4)
  have res: "s' = intp_swap q (pr - 1) s5" "p = q"
    using assms(2) h
    by (auto simp: qs_partition_def Let_def pr_def pm_def s3_def vp_def s4_def)
  have ql: "q < length s5" "pr - 1 < length s5" using H b by simp_all
  have piv: "v ! (s5 ! (pr - 1)) = vp"
    using H(7) n4 b by (simp add: vp_def)
  have at: "v ! (s' ! q) = vp"
    using ql piv by (simp add: res nth_swap)
  have lowr: "v ! (s' ! k) \<le> vp" if "k < q" for k
    using that H(4,5) ql by (simp add: res nth_swap)
  have highr: "vp \<le> v ! (s' ! k)" if "q < k" "k < length s" for k
  proof (cases "k = pr - 1")
    case True
    then show ?thesis using H(6) ql that H(2) by (simp add: res nth_swap)
  next
    case False
    then show ?thesis using H(6) ql that by (simp add: res nth_swap)
  qed
  have "mset s' = mset s" using H(1) ql by (simp add: res mset_swap_seg)
  moreover have "length s' = length s" using H(2) by (simp add: res)
  moreover have "p < length s - 1" using H(4) b by (simp add: res pr_def)
  ultimately show ?thesis
    using H(3) at lowr highr by (auto simp: res)
qed

lemma sift_unfold:
  "sift v a tmp i j n =
     (if 0 < j \<and> j \<le> n then
        (let j' = (if j < n \<and> v ! (a ! j) < v ! (a ! (j + 1)) then j + 1 else j)
         in if v ! tmp < v ! (a ! j')
            then sift v (a[i := a ! j']) tmp j' (j' + j') n
            else (a, i))
      else (a, i))"
  by (rule sift.simps)

lemma sift_spec:
  assumes "sift v a tmp i j n = (a', i')"
    and "j = i + i" and "0 < l" and "l \<le> i" and "n < length a" and "i \<le> n"
    and "\<forall>c. 2 * l \<le> c \<and> c \<le> n \<and> c div 2 \<noteq> i \<and> c \<noteq> i \<longrightarrow> v ! (a ! c) \<le> v ! (a ! (c div 2))"
    and "2 * l \<le> i \<longrightarrow> v ! tmp \<le> v ! (a ! (i div 2))"
    and "2 * l \<le> i \<longrightarrow> (\<forall>c. c div 2 = i \<and> c \<le> n \<longrightarrow> v ! (a ! c) \<le> v ! (a ! (i div 2)))"
  shows "hp v (a'[i' := tmp]) l n
       \<and> mset (a'[i' := tmp]) = mset (a[i := tmp])
       \<and> length a' = length a
       \<and> (\<forall>k. k < i \<or> n < k \<longrightarrow> (a'[i' := tmp]) ! k = (a[i := tmp]) ! k)
       \<and> (\<forall>k. i \<le> k \<and> k \<le> n \<longrightarrow> (\<exists>k'. i \<le> k' \<and> k' \<le> n \<and> (a'[i' := tmp]) ! k = (a[i := tmp]) ! k'))"
  using assms
proof (induction v a tmp i j n arbitrary: a' i' rule: sift.induct)
  case (1 v a tmp i j n)
  note H1 = "1.prems"(7) and H1b = "1.prems"(8) and H2 = "1.prems"(9)
  have j: "j = i + i" and l: "0 < l" "l \<le> i" and na: "n < length a" and i_n: "i \<le> n"
    using "1.prems" by simp_all
  have ipos: "0 < i" using l by simp
  have ia: "i < length a" using i_n na by simp
  define j' where "j' = (if j < n \<and> v ! (a ! j) < v ! (a ! (j + 1)) then j + 1 else j)"
  have unf: "sift v a tmp i j n =
     (if 0 < j \<and> j \<le> n then
        (if v ! tmp < v ! (a ! j') then sift v (a[i := a ! j']) tmp j' (j' + j') n else (a, i))
      else (a, i))"
    by (subst sift.simps) (simp add: j'_def Let_def)
  have stop: ?case if res: "a' = a" "i' = i"
    and ch: "\<forall>c. c div 2 = i \<and> c \<le> n \<longrightarrow> v ! (a ! c) \<le> v ! tmp"
  proof -
    have "hp v (a[i := tmp]) l n"
      unfolding hp_def
    proof (intro allI impI)
      fix c assume c: "2 * l \<le> c \<and> c \<le> n"
      then have cl: "c < length a" using na by simp
      have c2: "c div 2 < length a" using cl by simp
      show "v ! (a[i := tmp] ! c) \<le> v ! (a[i := tmp] ! (c div 2))"
      proof (cases "c = i")
        case True
        then have "c div 2 \<noteq> i" using ipos by auto
        then show ?thesis using True H1b c ia by simp
      next
        case False
        show ?thesis
        proof (cases "c div 2 = i")
          case True
          then show ?thesis using False ch c ia by simp
        next
          case F2: False
          then show ?thesis using False H1 c by simp
        qed
      qed
    qed
    then show ?thesis unfolding res by auto
  qed
  show ?case
  proof (cases "0 < j \<and> j \<le> n")
    case False
    with unf "1.prems"(1) have res: "a' = a" "i' = i" by simp_all
    have "\<forall>c. c div 2 = i \<and> c \<le> n \<longrightarrow> v ! (a ! c) \<le> v ! tmp"
    proof (intro allI impI)
      fix c assume "c div 2 = i \<and> c \<le> n"
      then have "j \<le> c" "c \<le> n" using j by auto
      with False ipos j show "v ! (a ! c) \<le> v ! tmp" by simp
    qed
    with res show ?thesis by (rule stop)
  next
    case True
    have j'cases: "j' = j \<or> j' = j + 1" by (simp add: j'_def)
    have j'n: "j' \<le> n" using True by (auto simp: j'_def)
    have j'div: "j' div 2 = i" using j'cases j by auto
    have j'gt: "i < j'" using j'cases j ipos by auto
    have largest: "v ! (a ! c) \<le> v ! (a ! j')" if "c div 2 = i" "c \<le> n" for c
    proof -
      from that j have "c = j \<or> c = j + 1" by auto
      then show ?thesis using that by (auto simp: j'_def not_less)
    qed
    show ?thesis
    proof (cases "v ! tmp < v ! (a ! j')")
      case False
      with unf True "1.prems"(1) have res: "a' = a" "i' = i" by simp_all
      have "\<forall>c. c div 2 = i \<and> c \<le> n \<longrightarrow> v ! (a ! c) \<le> v ! tmp"
        using largest False by (auto simp: not_less intro: order_trans)
      with res show ?thesis by (rule stop)
    next
      case less: True
      define a1 where "a1 = a[i := a ! j']"
      from unf True less "1.prems"(1) have rec: "sift v a1 tmp j' (j' + j') n = (a', i')"
        by (simp add: a1_def)
      have la1: "length a1 = length a" by (simp add: a1_def)
      have H1': "\<forall>c. 2 * l \<le> c \<and> c \<le> n \<and> c div 2 \<noteq> j' \<and> c \<noteq> j' \<longrightarrow>
                   v ! (a1 ! c) \<le> v ! (a1 ! (c div 2))"
      proof (intro allI impI)
        fix c assume c: "2 * l \<le> c \<and> c \<le> n \<and> c div 2 \<noteq> j' \<and> c \<noteq> j'"
        show "v ! (a1 ! c) \<le> v ! (a1 ! (c div 2))"
        proof (cases "c = i")
          case True
          then have ne: "c div 2 \<noteq> i" using ipos by auto
          have "v ! (a ! j') \<le> v ! (a ! (i div 2))"
            using H2 c True j'div j'n by simp
          then show ?thesis using True ne ia by (simp add: a1_def)
        next
          case False
          show ?thesis
          proof (cases "c div 2 = i")
            case True
            then show ?thesis using False largest c ia by (simp add: a1_def)
          next
            case F2: False
            then show ?thesis using False H1 c by (simp add: a1_def)
          qed
        qed
      qed
      have H1b': "2 * l \<le> j' \<longrightarrow> v ! tmp \<le> v ! (a1 ! (j' div 2))"
        using less ia by (simp add: j'div a1_def)
      have H2': "2 * l \<le> j' \<longrightarrow> (\<forall>c. c div 2 = j' \<and> c \<le> n \<longrightarrow> v ! (a1 ! c) \<le> v ! (a1 ! (j' div 2)))"
      proof (intro allI impI)
        fix c assume "2 * l \<le> j'" and c: "c div 2 = j' \<and> c \<le> n"
        then have "2 * l \<le> c" "c \<noteq> i" "c div 2 \<noteq> i" "c \<noteq> j'" using j'gt l by auto
        with H1 c have "v ! (a ! c) \<le> v ! (a ! j')" by auto
        then show "v ! (a1 ! c) \<le> v ! (a1 ! (j' div 2))"
          using \<open>c \<noteq> i\<close> ia by (simp add: a1_def j'div)
      qed
      have "j' = (if j < n \<and> v ! (a ! j) < v ! (a ! (j + 1)) then j + 1 else j)"
        by (simp add: j'_def)
      from "1.IH"[OF True this less, of a' i'] rec l j'gt j'n H1' H1b' H2' na
      have IH: "hp v (a'[i' := tmp]) l n"
        "mset (a'[i' := tmp]) = mset (a1[j' := tmp])"
        "length a' = length a"
        "\<forall>k. k < j' \<or> n < k \<longrightarrow> (a'[i' := tmp]) ! k = (a1[j' := tmp]) ! k"
        "\<forall>k. j' \<le> k \<and> k \<le> n \<longrightarrow> (\<exists>k'. j' \<le> k' \<and> k' \<le> n \<and> (a'[i' := tmp]) ! k = (a1[j' := tmp]) ! k')"
        by (simp_all add: a1_def)
      have j'a: "j' < length a" using j'n na by simp
      have sw: "a1[j' := tmp] = (a[i := tmp])[i := (a[i := tmp]) ! j', j' := (a[i := tmp]) ! i]"
        using j'gt ia j'a by (simp add: a1_def)
      have "mset ((a[i := tmp])[i := (a[i := tmp]) ! j', j' := (a[i := tmp]) ! i]) = mset (a[i := tmp])"
        by (rule mset_swap) (simp_all add: ia j'a)
      then have m: "mset (a1[j' := tmp]) = mset (a[i := tmp])"
        by (simp only: sw)
      have nth1: "(a1[j' := tmp]) ! k = (if k = j' then tmp else if k = i then a ! j' else a ! k)"
        if "k < length a" for k
        using that by (simp add: a1_def nth_list_update)
      have nthb: "(a[i := tmp]) ! k = (if k = i then tmp else a ! k)" if "k < length a" for k
        using that by (simp add: nth_list_update)
      have out: "\<forall>k. k < i \<or> n < k \<longrightarrow> (a'[i' := tmp]) ! k = (a[i := tmp]) ! k"
      proof (intro allI impI)
        fix k assume k: "k < i \<or> n < k"
        then have "k < j' \<or> n < k" using j'gt by auto
        with IH(4) have "(a'[i' := tmp]) ! k = (a1[j' := tmp]) ! k" by blast
        also have "\<dots> = (a[i := tmp]) ! k"
          using k j'gt j'n i_n by (auto simp: a1_def)
        finally show "(a'[i' := tmp]) ! k = (a[i := tmp]) ! k" .
      qed
      have reg: "\<forall>k. i \<le> k \<and> k \<le> n \<longrightarrow> (\<exists>k'. i \<le> k' \<and> k' \<le> n \<and> (a'[i' := tmp]) ! k = (a[i := tmp]) ! k')"
      proof (intro allI impI)
        fix k assume k: "i \<le> k \<and> k \<le> n"
        then have kl: "k < length a" using na by simp
        show "\<exists>k'. i \<le> k' \<and> k' \<le> n \<and> (a'[i' := tmp]) ! k = (a[i := tmp]) ! k'"
        proof (cases "j' \<le> k")
          case True
          with IH(5) k obtain k' where k': "j' \<le> k'" "k' \<le> n"
            "(a'[i' := tmp]) ! k = (a1[j' := tmp]) ! k'" by blast
          have k'l: "k' < length a" using k' na by simp
          show ?thesis
          proof (cases "k' = j'")
            case True
            then have "(a'[i' := tmp]) ! k = (a[i := tmp]) ! i"
              using k' nth1[OF k'l] nthb[OF ia] by simp
            then show ?thesis using i_n by blast
          next
            case False
            then have "(a'[i' := tmp]) ! k = (a[i := tmp]) ! k'"
              using k' nth1[OF k'l] nthb[OF k'l] j'gt by simp
            then show ?thesis using k' j'gt by (intro exI[of _ k']) simp
          qed
        next
          case False
          then have "k < j'" by simp
          with IH(4) have e: "(a'[i' := tmp]) ! k = (a1[j' := tmp]) ! k" by blast
          show ?thesis
          proof (cases "k = i")
            case True
            then have "(a'[i' := tmp]) ! k = (a[i := tmp]) ! j'"
              using e nth1[OF kl] nthb[OF j'a] j'gt by simp
            then show ?thesis using j'n j'gt by (intro exI[of _ j']) simp
          next
            case F2: False
            then have "(a'[i' := tmp]) ! k = (a[i := tmp]) ! k"
              using e nth1[OF kl] nthb[OF kl] \<open>k < j'\<close> by simp
            then show ?thesis using k by blast
          qed
        qed
      qed
      from IH(1) IH(2) m IH(3) out reg show ?thesis by simp
    qed
  qed
qed

lemma sift_down_spec:
  assumes "0 < l" and "l \<le> i" and "n < length a" and "i \<le> n"
    and "\<forall>c. 2 * l \<le> c \<and> c \<le> n \<and> c div 2 \<noteq> i \<and> c \<noteq> i \<longrightarrow> v ! (a ! c) \<le> v ! (a ! (c div 2))"
    and "2 * l \<le> i \<longrightarrow> v ! tmp \<le> v ! (a ! (i div 2))"
    and "2 * l \<le> i \<longrightarrow> (\<forall>c. c div 2 = i \<and> c \<le> n \<longrightarrow> v ! (a ! c) \<le> v ! (a ! (i div 2)))"
  shows "hp v (sift_down v a tmp i n) l n
       \<and> mset (sift_down v a tmp i n) = mset (a[i := tmp])
       \<and> length (sift_down v a tmp i n) = length a
       \<and> (\<forall>k. k < i \<or> n < k \<longrightarrow> sift_down v a tmp i n ! k = (a[i := tmp]) ! k)
       \<and> (\<forall>k. i \<le> k \<and> k \<le> n \<longrightarrow> (\<exists>k'. i \<le> k' \<and> k' \<le> n \<and> sift_down v a tmp i n ! k = (a[i := tmp]) ! k'))"
proof -
  obtain a' i' where r: "sift v a tmp i (i + i) n = (a', i')" by (cases "sift v a tmp i (i + i) n")
  have sd: "sift_down v a tmp i n = a'[i' := tmp]" by (simp add: sift_down_def r)
  from sift_spec[OF r refl assms] show ?thesis unfolding sd by simp
qed

lemma build_step:
  assumes "hp v a (Suc l) n" and "0 < l" and "l \<le> n" and "n < length a"
  shows "hp v (sift_down v a (a ! l) l n) l n
       \<and> mset (sift_down v a (a ! l) l n) = mset a
       \<and> length (sift_down v a (a ! l) l n) = length a
       \<and> (\<forall>k. k < l \<or> n < k \<longrightarrow> sift_down v a (a ! l) l n ! k = a ! k)"
proof -
  have H1: "\<forall>c. 2 * l \<le> c \<and> c \<le> n \<and> c div 2 \<noteq> l \<and> c \<noteq> l \<longrightarrow> v ! (a ! c) \<le> v ! (a ! (c div 2))"
  proof (intro allI impI)
    fix c assume c: "2 * l \<le> c \<and> c \<le> n \<and> c div 2 \<noteq> l \<and> c \<noteq> l"
    then have "2 * Suc l \<le> c" by (cases "c = 2 * l"; cases "c = 2 * l + 1") auto
    with assms(1) c show "v ! (a ! c) \<le> v ! (a ! (c div 2))" by (simp add: hp_def)
  qed
  have H1b: "2 * l \<le> l \<longrightarrow> v ! (a ! l) \<le> v ! (a ! (l div 2))" using assms(2) by simp
  have H2: "2 * l \<le> l \<longrightarrow> (\<forall>c. c div 2 = l \<and> c \<le> n \<longrightarrow> v ! (a ! c) \<le> v ! (a ! (l div 2)))"
    using assms(2) by simp
  have "a[l := a ! l] = a" by simp
  with sift_down_spec[OF assms(2) le_refl assms(4) assms(3) H1 H1b H2] show ?thesis by simp
qed

lemma build_fold:
  assumes "hp v a (Suc m) n" and "m \<le> n" and "n < length a"
  shows "hp v (fold (\<lambda>l a. sift_down v a (a ! l) l n) (rev [1..<Suc m]) a) 1 n
       \<and> mset (fold (\<lambda>l a. sift_down v a (a ! l) l n) (rev [1..<Suc m]) a) = mset a
       \<and> length (fold (\<lambda>l a. sift_down v a (a ! l) l n) (rev [1..<Suc m]) a) = length a
       \<and> (\<forall>k. k = 0 \<or> n < k \<longrightarrow> fold (\<lambda>l a. sift_down v a (a ! l) l n) (rev [1..<Suc m]) a ! k = a ! k)"
  using assms
proof (induction m arbitrary: a)
  case 0
  then show ?case by simp
next
  case (Suc m)
  let ?b = "sift_down v a (a ! Suc m) (Suc m) n"
  from build_step[OF Suc.prems(1) _ Suc.prems(2,3)]
  have b: "hp v ?b (Suc m) n" "mset ?b = mset a" "length ?b = length a"
    "\<forall>k. k < Suc m \<or> n < k \<longrightarrow> ?b ! k = a ! k" by simp_all
  have "m \<le> n" "n < length ?b" using Suc.prems b(3) by simp_all
  from Suc.IH[OF b(1) this]
  have IH: "hp v (fold (\<lambda>l a. sift_down v a (a ! l) l n) (rev [1..<Suc m]) ?b) 1 n"
    "mset (fold (\<lambda>l a. sift_down v a (a ! l) l n) (rev [1..<Suc m]) ?b) = mset ?b"
    "length (fold (\<lambda>l a. sift_down v a (a ! l) l n) (rev [1..<Suc m]) ?b) = length ?b"
    "\<forall>k. k = 0 \<or> n < k \<longrightarrow> fold (\<lambda>l a. sift_down v a (a ! l) l n) (rev [1..<Suc m]) ?b ! k = ?b ! k"
    by simp_all
  have unf: "fold (\<lambda>l a. sift_down v a (a ! l) l n) (rev [1..<Suc (Suc m)]) a
             = fold (\<lambda>l a. sift_down v a (a ! l) l n) (rev [1..<Suc m]) ?b"
    by simp
  show ?case unfolding unf using IH b by auto
qed

lemma build_heap_spec:
  assumes "n < length a"
  shows "hp v (build_heap v a n) 1 n \<and> mset (build_heap v a n) = mset a
       \<and> length (build_heap v a n) = length a
       \<and> (\<forall>k. k = 0 \<or> n < k \<longrightarrow> build_heap v a n ! k = a ! k)"
proof -
  have "hp v a (Suc (n div 2)) n" by (auto simp: hp_def)
  from build_fold[OF this _ assms] show ?thesis by (simp add: build_heap_def)
qed

lemma heap_root_max:
  assumes "hp v a 1 n"
  shows "1 \<le> k \<Longrightarrow> k \<le> n \<Longrightarrow> v ! (a ! k) \<le> v ! (a ! 1)"
proof (induction k rule: less_induct)
  case (less k)
  show ?case
  proof (cases "k = 1")
    case True
    then show ?thesis by simp
  next
    case False
    with less.prems have k2: "2 * 1 \<le> k" by simp
    with assms less.prems have "v ! (a ! k) \<le> v ! (a ! (k div 2))" by (simp add: hp_def)
    moreover have "v ! (a ! (k div 2)) \<le> v ! (a ! 1)"
      using less.IH[of "k div 2"] k2 less.prems by simp
    ultimately show ?thesis by simp
  qed
qed

lemma extract_step:
  assumes hp: "hp v a 1 (Suc n)" and n: "0 < n" and len: "Suc n < length a"
    and suf: "\<forall>k k'. Suc n < k \<and> k \<le> k' \<and> k' < length a \<longrightarrow> v ! (a ! k) \<le> v ! (a ! k')"
    and cross: "\<forall>k k'. 1 \<le> k \<and> k \<le> Suc n \<and> Suc n < k' \<and> k' < length a \<longrightarrow> v ! (a ! k) \<le> v ! (a ! k')"
  defines "b \<equiv> sift_down v (a[Suc n := a ! 1]) (a ! Suc n) 1 n"
  shows "hp v b 1 n" and "mset b = mset a" and "length b = length a" and "b ! 0 = a ! 0"
    and "\<forall>k k'. n < k \<and> k \<le> k' \<and> k' < length b \<longrightarrow> v ! (b ! k) \<le> v ! (b ! k')"
    and "\<forall>k k'. 1 \<le> k \<and> k \<le> n \<and> n < k' \<and> k' < length b \<longrightarrow> v ! (b ! k) \<le> v ! (b ! k')"
proof -
  let ?a1 = "a[Suc n := a ! 1]"
  let ?tmp = "a ! Suc n"
  have la1: "n < length ?a1" using len by simp
  have H1: "\<forall>c. 2 * 1 \<le> c \<and> c \<le> n \<and> c div 2 \<noteq> 1 \<and> c \<noteq> 1 \<longrightarrow> v ! (?a1 ! c) \<le> v ! (?a1 ! (c div 2))"
  proof (intro allI impI)
    fix c assume c: "2 * 1 \<le> c \<and> c \<le> n \<and> c div 2 \<noteq> 1 \<and> c \<noteq> 1"
    then have "v ! (a ! c) \<le> v ! (a ! (c div 2))" using hp by (simp add: hp_def)
    moreover have "c \<noteq> Suc n" "c div 2 \<noteq> Suc n" using c by auto
    ultimately show "v ! (?a1 ! c) \<le> v ! (?a1 ! (c div 2))" by simp
  qed
  have one: "(1::nat) \<le> n" using n by simp
  from sift_down_spec[of 1 1 n ?a1 v ?tmp, OF _ _ la1 one H1]
  have S: "hp v b 1 n" "mset b = mset (?a1[1 := ?tmp])" "length b = length a"
    "\<forall>k. k < 1 \<or> n < k \<longrightarrow> b ! k = (?a1[1 := ?tmp]) ! k"
    "\<forall>k. 1 \<le> k \<and> k \<le> n \<longrightarrow> (\<exists>k'. 1 \<le> k' \<and> k' \<le> n \<and> b ! k = (?a1[1 := ?tmp]) ! k')"
    by (simp_all add: b_def)
  show "hp v b 1 n" by (rule S(1))
  show "length b = length a" by (rule S(3))
  have "mset (a[Suc n := a ! 1, 1 := a ! Suc n]) = mset a"
    by (rule mset_swap) (use len in simp_all)
  with S(2) show "mset b = mset a" by simp
  show "b ! 0 = a ! 0" using S(4) len by simp
  have top: "b ! Suc n = a ! 1" using S(4) len n by simp
  have rest: "b ! k = a ! k" if "Suc n < k" "k < length a" for k
    using S(4) that by simp
  have region: "\<exists>k'. 1 \<le> k' \<and> k' \<le> Suc n \<and> b ! k = a ! k'" if "1 \<le> k" "k \<le> n" for k
  proof -
    from S(5) that obtain k' where k': "1 \<le> k'" "k' \<le> n" "b ! k = (?a1[1 := ?tmp]) ! k'" by blast
    show ?thesis
    proof (cases "k' = 1")
      case True
      then have "b ! k = a ! Suc n" using k' len by simp
      then show ?thesis by (intro exI[of _ "Suc n"]) simp
    next
      case False
      then have "b ! k = a ! k'" using k' len by simp
      then show ?thesis using k' by (intro exI[of _ k']) simp
    qed
  qed
  show "\<forall>k k'. n < k \<and> k \<le> k' \<and> k' < length b \<longrightarrow> v ! (b ! k) \<le> v ! (b ! k')"
  proof (intro allI impI)
    fix k k' assume h: "n < k \<and> k \<le> k' \<and> k' < length b"
    show "v ! (b ! k) \<le> v ! (b ! k')"
    proof (cases "k = Suc n")
      case True
      show ?thesis
      proof (cases "k' = Suc n")
        case True
        with \<open>k = Suc n\<close> show ?thesis by simp
      next
        case False
        with True h have "Suc n < k'" "k' < length a" using S(3) by simp_all
        then show ?thesis using True top rest cross by simp
      qed
    next
      case False
      with h have "Suc n < k" "k < length a" "Suc n < k'" "k' < length a" using S(3) by simp_all
      then show ?thesis using rest suf h by simp
    qed
  qed
  show "\<forall>k k'. 1 \<le> k \<and> k \<le> n \<and> n < k' \<and> k' < length b \<longrightarrow> v ! (b ! k) \<le> v ! (b ! k')"
  proof (intro allI impI)
    fix k k' assume h: "1 \<le> k \<and> k \<le> n \<and> n < k' \<and> k' < length b"
    then obtain k2 where k2: "1 \<le> k2" "k2 \<le> Suc n" "b ! k = a ! k2" using region by blast
    show "v ! (b ! k) \<le> v ! (b ! k')"
    proof (cases "k' = Suc n")
      case True
      then show ?thesis using top k2 heap_root_max[OF hp k2(1,2)] by simp
    next
      case False
      with h have "Suc n < k'" "k' < length a" using S(3) by simp_all
      then show ?thesis using rest k2 cross by simp
    qed
  qed
qed

lemma extract_all_spec:
  assumes "hp v a 1 n" and "n < length a"
    and "\<forall>k k'. n < k \<and> k \<le> k' \<and> k' < length a \<longrightarrow> v ! (a ! k) \<le> v ! (a ! k')"
    and "\<forall>k k'. 1 \<le> k \<and> k \<le> n \<and> n < k' \<and> k' < length a \<longrightarrow> v ! (a ! k) \<le> v ! (a ! k')"
  shows "mset (extract_all v a n) = mset a \<and> length (extract_all v a n) = length a
       \<and> extract_all v a n ! 0 = a ! 0
       \<and> (\<forall>k k'. 1 \<le> k \<and> k \<le> k' \<and> k' < length a \<longrightarrow>
             v ! (extract_all v a n ! k) \<le> v ! (extract_all v a n ! k'))"
  using assms
proof (induction n arbitrary: a)
  case 0
  then show ?case by simp
next
  case (Suc n)
  show ?case
  proof (cases "0 < n")
    case False
    then have n0: "n = 0" by simp
    have "v ! (a ! k) \<le> v ! (a ! k')" if "1 \<le> k" "k \<le> k'" "k' < length a" for k k'
    proof (cases "k = 1")
      case True
      show ?thesis
      proof (cases "k' = 1")
        case True
        with \<open>k = 1\<close> show ?thesis by simp
      next
        case False
        then show ?thesis using True that Suc.prems(4) n0 by simp
      qed
    next
      case False
      then show ?thesis using that Suc.prems(3) n0 by simp
    qed
    then show ?thesis using n0 by simp
  next
    case True
    let ?b = "sift_down v (a[Suc n := a ! 1]) (a ! Suc n) 1 n"
    note st = extract_step[OF Suc.prems(1) True Suc.prems(2) Suc.prems(3) Suc.prems(4)]
    have "n < length ?b" using st(3) Suc.prems(2) by simp
    from Suc.IH[OF st(1) this st(5) st(6)]
    have IH: "mset (extract_all v ?b n) = mset ?b" "length (extract_all v ?b n) = length ?b"
      "extract_all v ?b n ! 0 = ?b ! 0"
      "\<forall>k k'. 1 \<le> k \<and> k \<le> k' \<and> k' < length ?b \<longrightarrow>
             v ! (extract_all v ?b n ! k) \<le> v ! (extract_all v ?b n ! k')"
      by simp_all
    have unf: "extract_all v a (Suc n) = extract_all v ?b n" using True by simp
    show ?thesis unfolding unf using IH st(2,3,4) by simp
  qed
qed

lemma aheapsort_correct:
  "mset (aheapsort v s) = mset s"
  "sorted_wrt (\<lambda>a b. v ! a \<le> v ! b) (aheapsort v s)"
proof -
  let ?n = "length s"
  let ?b = "build_heap v (0 # s) ?n"
  let ?r = "extract_all v ?b ?n"
  have "?n < length (0 # s)" by simp
  from build_heap_spec[OF this, of v]
  have B: "hp v ?b 1 ?n" "mset ?b = mset (0 # s)" "length ?b = Suc ?n" "?b ! 0 = 0"
    by simp_all
  have "?n < length ?b" using B(3) by simp
  from extract_all_spec[OF B(1) this] B(3)
  have E: "mset ?r = mset ?b" "length ?r = Suc ?n" "?r ! 0 = ?b ! 0"
    "\<forall>k k'. 1 \<le> k \<and> k \<le> k' \<and> k' < Suc ?n \<longrightarrow> v ! (?r ! k) \<le> v ! (?r ! k')"
    by simp_all
  from E(2) obtain x xs where r: "?r = x # xs" by (cases ?r) auto
  have x: "x = 0" using E(3) B(4) r by simp
  have "mset (x # xs) = mset (0 # s)" using E(1) B(2) r by simp
  then have "mset xs = mset s" using x by simp
  then show "mset (aheapsort v s) = mset s" by (simp add: aheapsort_def r)
  have "sorted_wrt (\<lambda>a b. v ! a \<le> v ! b) xs"
    unfolding sorted_wrt_iff_nth_less
  proof (intro allI impI)
    fix i j assume "i < j" "j < length xs"
    then have "1 \<le> Suc i \<and> Suc i \<le> Suc j \<and> Suc j < Suc ?n" using E(2) r by simp
    with E(4) have "v ! (?r ! Suc i) \<le> v ! (?r ! Suc j)" by blast
    then show "v ! (xs ! i) \<le> v ! (xs ! j)" by (simp add: r)
  qed
  then show "sorted_wrt (\<lambda>a b. v ! a \<le> v ! b) (aheapsort v s)" by (simp add: aheapsort_def r)
qed

lemma partition_lengths:
  assumes "16 < length s - Suc 0" and "(s', p) = qs_partition v s"
  shows "min (length s') p < length s" and "length s' - Suc p < length s"
proof -
  have "3 \<le> length s" "qs_partition v s = (s', p)" using assms by simp_all
  from partition_spec[OF this] show "min (length s') p < length s"
    and "length s' - Suc p < length s" by auto
qed

termination qs
  by (relation "measure (\<lambda>(v, popped, cdepth, s). length s)")
     (auto intro: partition_lengths)

declare qs.simps [simp del]

lemma sorted_join:
  fixes v :: "real list"
  assumes "sorted_wrt (\<lambda>a b. v ! a \<le> v ! b) l" and "sorted_wrt (\<lambda>a b. v ! a \<le> v ! b) r"
    and "\<forall>a \<in> set l. v ! a \<le> v ! x" and "\<forall>b \<in> set r. v ! x \<le> v ! b"
  shows "sorted_wrt (\<lambda>a b. v ! a \<le> v ! b) (l @ [x] @ r)"
proof -
  have "v ! a \<le> v ! b" if "a \<in> set l" "b \<in> set r" for a b
  proof -
    from that assms(3,4) have "v ! a \<le> v ! x" "v ! x \<le> v ! b" by simp_all
    then show ?thesis by (rule order_trans)
  qed
  with assms show ?thesis by (auto simp: sorted_wrt_append)
qed

lemma qs_correct:
  "mset (qs v popped cdepth s) = mset s \<and> sorted_wrt (\<lambda>a b. v ! a \<le> v ! b) (qs v popped cdepth s)"
proof (induction v popped cdepth s rule: qs.induct)
  case (1 v popped cdepth s)
  show ?case
  proof (cases "popped \<and> cdepth < 0")
    case True
    then have "qs v popped cdepth s = aheapsort v s" by (subst qs.simps) simp
    then show ?thesis using aheapsort_correct[of v s] by simp
  next
    case nh: False
    show ?thesis
    proof (cases "16 < length s - 1")
      case False
      with nh have "qs v popped cdepth s = insertion_sort v s" by (subst qs.simps) auto
      then show ?thesis using insertion_sort_correct[of v s] by simp
    next
      case big: True
      obtain s' p where part: "qs_partition v s = (s', p)" by (cases "qs_partition v s")
      have "3 \<le> length s" using big by simp
      from partition_spec[OF this part]
      have P: "mset s' = mset s" "length s' = length s" "p < length s - 1"
        "\<forall>k < p. v ! (s' ! k) \<le> v ! (s' ! p)"
        "\<forall>k. p < k \<and> k < length s \<longrightarrow> v ! (s' ! p) \<le> v ! (s' ! k)"
        by simp_all
      have pl: "p < length s'" using P(2,3) by simp
      let ?l = "take p s'" and ?r = "drop (p + 1) s'"
      have split: "s' = ?l @ [s' ! p] @ ?r"
        using pl by (simp add: id_take_nth_drop[symmetric])
      have lowl: "\<forall>a \<in> set ?l. v ! a \<le> v ! (s' ! p)"
        using P(4) pl by (auto simp: in_set_conv_nth)
      have highr: "\<forall>b \<in> set ?r. v ! (s' ! p) \<le> v ! b"
      proof
        fix b assume "b \<in> set ?r"
        then obtain k where "k < length ?r" "b = ?r ! k" by (auto simp: in_set_conv_nth)
        then have "b = s' ! (p + 1 + k)" "p + 1 + k < length s" using pl P(2) by auto
        then show "v ! (s' ! p) \<le> v ! b" using P(5) by simp
      qed
      have res: "\<exists>b1 b2. qs v popped cdepth s = qs v b1 (cdepth - 1) ?l @ [s' ! p] @ qs v b2 (cdepth - 1) ?r
                   \<and> mset (qs v b1 (cdepth - 1) ?l) = mset ?l
                   \<and> sorted_wrt (\<lambda>a b. v ! a \<le> v ! b) (qs v b1 (cdepth - 1) ?l)
                   \<and> mset (qs v b2 (cdepth - 1) ?r) = mset ?r
                   \<and> sorted_wrt (\<lambda>a b. v ! a \<le> v ! b) (qs v b2 (cdepth - 1) ?r)"
      proof (cases "p < length s - 1 - p")
        case True
        have "qs v popped cdepth s = qs v False (cdepth - 1) ?l @ [s' ! p] @ qs v True (cdepth - 1) ?r"
          using nh big part True by (subst qs.simps) auto
        moreover note "1.IH"(1)[OF nh big part[symmetric] True] "1.IH"(2)[OF nh big part[symmetric] True]
        ultimately show ?thesis by blast
      next
        case False
        have "qs v popped cdepth s = qs v True (cdepth - 1) ?l @ [s' ! p] @ qs v False (cdepth - 1) ?r"
          using nh big part False by (subst qs.simps) auto
        moreover note "1.IH"(3)[OF nh big part[symmetric] False] "1.IH"(4)[OF nh big part[symmetric] False]
        ultimately show ?thesis by blast
      qed
      then obtain b1 b2 where R: "qs v popped cdepth s = qs v b1 (cdepth - 1) ?l @ [s' ! p] @ qs v b2 (cdepth - 1) ?r"
        "mset (qs v b1 (cdepth - 1) ?l) = mset ?l"
        "sorted_wrt (\<lambda>a b. v ! a \<le> v ! b) (qs v b1 (cdepth - 1) ?l)"
        "mset (qs v b2 (cdepth - 1) ?r) = mset ?r"
        "sorted_wrt (\<lambda>a b. v ! a \<le> v ! b) (qs v b2 (cdepth - 1) ?r)"
        by blast
      have "mset (qs v popped cdepth s) = mset ?l + {#s' ! p#} + mset ?r"
        using R(1,2,4) by simp
      also have "\<dots> = mset (?l @ [s' ! p] @ ?r)" by simp
      also have "\<dots> = mset s" using split P(1) by simp
      finally have m: "mset (qs v popped cdepth s) = mset s" .
      have "set (qs v b1 (cdepth - 1) ?l) = set ?l" "set (qs v b2 (cdepth - 1) ?r) = set ?r"
        using R(2,4) by (auto dest: mset_eq_setD)
      with lowl highr have "\<forall>a \<in> set (qs v b1 (cdepth - 1) ?l). v ! a \<le> v ! (s' ! p)"
        "\<forall>b \<in> set (qs v b2 (cdepth - 1) ?r). v ! (s' ! p) \<le> v ! b" by simp_all
      from sorted_join[OF R(3,5) this] m R(1) show ?thesis by simp
    qed
  qed
qed

lemma aquicksort_correct:
  "mset (aquicksort xs) = mset [0..<length xs]"
  "sorted (map (\<lambda>i. xs ! i) (aquicksort xs))"
  using qs_correct[of xs True "2 * int (npy_get_msb (length xs))" "[0..<length xs]"]
  by (simp_all add: aquicksort_def sorted_map)

subsubsection \<open>The descending sort and the top 10\<close>

lemma mset_map_nth_perm:
  assumes "mset ps = mset [0..<length L]"
  shows "mset (map (\<lambda>j. L ! j) ps) = mset L"
proof -
  have "mset (map (\<lambda>j. L ! j) ps) = image_mset (\<lambda>j. L ! j) (mset ps)" by simp
  also have "\<dots> = image_mset (\<lambda>j. L ! j) (mset [0..<length L])" by (simp only: assms)
  also have "\<dots> = mset (map (\<lambda>j. L ! j) [0..<length L])" by simp
  also have "\<dots> = mset L" by (simp only: map_nth)
  finally show ?thesis .
qed

lemma aquicksort_set: "set (aquicksort xs) = {0..<length xs}"
  using mset_eq_setD[OF aquicksort_correct(1)[of xs]] by simp

lemma nargsort_desc_perm: "mset (nargsort_desc items) = mset [0..<length items]"
proof -
  have "mset (aquicksort (rev items)) = mset [0..<length (rev [0..<length items])]"
    using aquicksort_correct(1)[of "rev items"] by simp
  from mset_map_nth_perm[OF this] show ?thesis
    by (simp add: nargsort_desc_def)
qed

lemma nargsort_desc_sorted:
  "sorted_wrt (\<ge>) (map (\<lambda>i. items ! i) (nargsort_desc items))"
proof -
  let ?n = "length items"
  have eq: "map (\<lambda>j. items ! (rev [0..<?n] ! j)) (aquicksort (rev items))
        = map (\<lambda>j. rev items ! j) (aquicksort (rev items))"
  proof (rule map_cong[OF refl])
    fix j assume "j \<in> set (aquicksort (rev items))"
    then have j: "j < ?n" using aquicksort_set[of "rev items"] by simp
    then have "rev [0..<?n] ! j = ?n - Suc j" by (simp add: rev_nth)
    with j show "items ! (rev [0..<?n] ! j) = rev items ! j" by (simp add: rev_nth)
  qed
  have "sorted (map (\<lambda>j. rev items ! j) (aquicksort (rev items)))"
    by (rule aquicksort_correct(2))
  then have "sorted (map (\<lambda>j. items ! (rev [0..<?n] ! j)) (aquicksort (rev items)))"
    by (simp only: eq)
  then have "sorted_wrt (\<ge>) (rev (map (\<lambda>j. items ! (rev [0..<?n] ! j)) (aquicksort (rev items))))"
    by (simp only: sorted_wrt_rev)
  then show ?thesis
    by (simp add: nargsort_desc_def rev_map comp_def)
qed

lemma sort_values_desc_perm: "mset (sort_values_desc col view) = mset view"
proof -
  have "mset (nargsort_desc (series col view)) = mset [0..<length view]"
    using nargsort_desc_perm[of "series col view"] by (simp add: series_def)
  from mset_map_nth_perm[OF this] show ?thesis
    by (simp add: sort_values_desc_def)
qed

lemma sort_values_desc_sorted:
  "sorted_wrt (\<ge>) (map (\<lambda>(i, r). col r) (sort_values_desc col view))"
proof -
  let ?idx = "nargsort_desc (series col view)"
  have "set ?idx = {0..<length view}"
    using mset_eq_setD[OF nargsort_desc_perm[of "series col view"]]
    by (simp add: series_def)
  then have "map (\<lambda>(i, r). col r) (sort_values_desc col view)
        = map (\<lambda>i. series col view ! i) ?idx"
    by (auto simp: sort_values_desc_def series_def)
  with nargsort_desc_sorted[of "series col view"] show ?thesis by simp
qed

text \<open>
  C3, as the code has it. For every view of \<open>n\<close> rows, the top 10 games are the first
  \<open>min 10 n\<close> rows of a rearrangement of the view that is non-increasing in
  Global_Sales: at most 10 rows, sorted, and no row that is left out sells more than a
  row that is shown. Rows with equal Global_Sales come in the order in which numpy's
  quicksort leaves them.
\<close>

theorem top_games_sorted:
  "length (top_games view) = min 10 (length view)
   \<and> length (top_games view) \<le> 10
   \<and> sorted_wrt (\<ge>) (map (\<lambda>(i, r). Global_Sales r) (top_games view))
   \<and> (\<exists>rest. mset (top_games view @ rest) = mset view
          \<and> (\<forall>x \<in> set (top_games view). \<forall>y \<in> set rest.
                Global_Sales (snd y) \<le> Global_Sales (snd x)))"
proof -
  let ?s = "sort_values_desc Global_Sales view"
  have perm: "mset ?s = mset view" by (rule sort_values_desc_perm)
  have srt: "sorted_wrt (\<ge>) (map (\<lambda>(i, r). Global_Sales r) ?s)"
    by (rule sort_values_desc_sorted)
  have len: "length ?s = length view" using perm by (rule mset_eq_length)
  have 1: "length (top_games view) = min 10 (length view)"
    by (simp add: top_games_def head_def len min.commute)
  have 2: "sorted_wrt (\<ge>) (map (\<lambda>(i, r). Global_Sales r) (top_games view))"
    using srt sorted_wrt_take[of "(\<ge>)" "map (\<lambda>(i, r). Global_Sales r) ?s" 10]
    by (simp add: top_games_def head_def take_map)
  have split: "top_games view @ drop 10 ?s = ?s"
    by (simp add: top_games_def head_def)
  have "sorted_wrt (\<ge>) (map (\<lambda>(i, r). Global_Sales r) (top_games view @ drop 10 ?s))"
    using srt by (simp only: split)
  then have 3: "\<forall>x \<in> set (top_games view). \<forall>y \<in> set (drop 10 ?s).
                    Global_Sales (snd y) \<le> Global_Sales (snd x)"
    by (auto simp: sorted_wrt_append split_def)
  have "mset (top_games view @ drop 10 ?s) = mset view"
    using perm by (simp only: split)
  with 1 2 3 show ?thesis by auto
qed

theorem top_games_sorted_witness:
  "map (\<lambda>(i, r). Global_Sales r) ranked_view = [3, 11, 7, 1, 12, 5, 9, 2, 10, 6, 4, 8]
   \<and> length (top_games ranked_view) = min 10 (length ranked_view)
   \<and> length (top_games ranked_view) \<le> 10
   \<and> sorted_wrt (\<ge>) (map (\<lambda>(i, r). Global_Sales r) (top_games ranked_view))
   \<and> (\<exists>rest. mset (top_games ranked_view @ rest) = mset ranked_view
          \<and> (\<forall>x \<in> set (top_games ranked_view). \<forall>y \<in> set rest.
                Global_Sales (snd y) \<le> Global_Sales (snd x)))
   \<and> map fst (top_games ranked_view) = [4, 1, 8, 6, 11, 2, 9, 5, 10, 0]"
proof -
  have a: "map (\<lambda>(i, r). Global_Sales r) ranked_view = [3, 11, 7, 1, 12, 5, 9, 2, 10, 6, 4, 8]"
    by code_simp
  have b: "map fst (top_games ranked_view) = [4, 1, 8, 6, 11, 2, 9, 5, 10, 0]"
    by code_simp
  from top_games_sorted[of ranked_view] a b show ?thesis by blast
qed

text \<open>
  C3, as stated, asks in addition that rows with equal Global_Sales keep their original
  order. The 24 racing games of the example all have Global_Sales 5, and all of them are
  in the filtered view; 24 values are more than the quicksort sorts by insertion, and
  its partition step swaps equal values, so the top 10 are not in row order.
\<close>

theorem top_games_ties_counterexample:
  "map fst racing_view = [0..<24]
   \<and> \<not> ties_in_row_order (top_games racing_view)"
proof -
  have a: "map fst racing_view = [0..<24]" by code_simp
  have b: "\<not> ties_in_row_order (top_games racing_view)" by code_simp
  from a b show ?thesis by blast
qed

subsection \<open>The correlation matrix\<close>

subsubsection \<open>Rounding\<close>

lemma rne_of_int [simp]: "rne (of_int n) = n"
  by (simp add: rne_def)

lemma rne_near:
  assumes "\<bar>y - of_int n\<bar> < 1 / 2"
  shows "rne y = n"
proof -
  have "\<lfloor>y\<rfloor> = n \<or> \<lfloor>y\<rfloor> = n - 1" using assms by linarith
  then show ?thesis
  proof
    assume f: "\<lfloor>y\<rfloor> = n"
    then have "y - of_int n < 1 / 2" using assms by linarith
    then show ?thesis by (simp add: rne_def f)
  next
    assume f: "\<lfloor>y\<rfloor> = n - 1"
    have "- (1 / 2) < y - of_int n" using assms by linarith
    then have "1 / 2 < y - of_int (n - 1)" by simp
    then have "\<not> y - of_int (n - 1) < 1 / 2" by linarith
    with \<open>1 / 2 < y - of_int (n - 1)\<close> show ?thesis
      unfolding rne_def Let_def f by simp
  qed
qed

lemma rne_err: "\<bar>of_int (rne y) - y\<bar> \<le> 1 / 2"
  unfolding rne_def Let_def by (auto; linarith)

lemma rne_half_down: "\<bar>y\<bar> \<le> 1 / 2 \<Longrightarrow> rne y = 0"
proof -
  assume a: "\<bar>y\<bar> \<le> 1 / 2"
  consider "\<bar>y\<bar> < 1 / 2" | "y = 1 / 2" | "y = - 1 / 2" using a by linarith
  then show ?thesis
  proof cases
    case 1
    then show ?thesis using rne_near[of y 0] by simp
  next
    case 2
    have f: "\<lfloor>y\<rfloor> = 0" unfolding 2 by (simp add: floor_eq_iff)
    show ?thesis unfolding rne_def Let_def f by (simp add: 2)
  next
    case 3
    have f: "\<lfloor>y\<rfloor> = - 1" unfolding 3 by (simp add: floor_eq_iff)
    show ?thesis unfolding rne_def Let_def f by (simp add: 3)
  qed
qed


lemma expo_from_ge: "- 1022 \<le> expo_from x k"
  by (induction k) auto

lemma expo_from_le: "expo_from x k \<le> int k - 1022"
  by (induction k) auto

lemma expo_from_lower: "expo_from x k \<noteq> - 1022 \<Longrightarrow> 2 powi (expo_from x k) \<le> \<bar>x\<bar>"
  by (induction k) (auto split: if_splits)

lemma expo_from_upper: "expo_from x k < e \<Longrightarrow> e \<le> int k - 1022 \<Longrightarrow> \<bar>x\<bar> < 2 powi e"
proof (induction k)
  case 0
  then show ?case using expo_from_ge[of x 0] by simp
next
  case (Suc k)
  show ?case
  proof (cases "2 powi (int (Suc k) - 1022) \<le> \<bar>x\<bar>")
    case True
    then have "expo_from x (Suc k) = int (Suc k) - 1022" by simp
    with Suc.prems show ?thesis by linarith
  next
    case False
    then have eq: "expo_from x (Suc k) = expo_from x k" by simp
    show ?thesis
    proof (cases "e \<le> int k - 1022")
      case True
      with Suc.IH Suc.prems eq show ?thesis by simp
    next
      case False
      with Suc.prems have "e = int (Suc k) - 1022" by linarith
      with \<open>\<not> 2 powi (int (Suc k) - 1022) \<le> \<bar>x\<bar>\<close> show ?thesis by simp
    qed
  qed
qed

lemma expo_ge: "- 1022 \<le> expo x"
  by (simp add: expo_def expo_from_ge)

lemma expo_le: "expo x \<le> 1023"
  using expo_from_le[of x 2045] by (simp add: expo_def)

lemma expo_lower: "2 powi (- 1022) \<le> \<bar>x\<bar> \<Longrightarrow> 2 powi (expo x) \<le> \<bar>x\<bar>"
  using expo_from_lower[of x 2045] by (cases "expo x = - 1022") (auto simp: expo_def)

lemma expo_upper: "\<bar>x\<bar> < 2 powi 1024 \<Longrightarrow> \<bar>x\<bar> < 2 powi (expo x + 1)"
proof -
  assume a: "\<bar>x\<bar> < 2 powi 1024"
  show ?thesis
  proof (cases "expo x = 1023")
    case True
    with a show ?thesis by simp
  next
    case False
    with expo_le[of x] have "expo x + 1 \<le> 1023" by linarith
    then show ?thesis using expo_from_upper[of x 2045 "expo x + 1"] by (simp add: expo_def)
  qed
qed

lemma expo_subnormal: "\<bar>x\<bar> < 2 powi (- 1022) \<Longrightarrow> expo x = - 1022"
proof (rule ccontr)
  assume a: "\<bar>x\<bar> < 2 powi (- 1022)" and n: "expo x \<noteq> - 1022"
  from n have l: "2 powi (expo x) \<le> \<bar>x\<bar>" using expo_from_lower[of x 2045] by (simp add: expo_def)
  have "(2::real) powi (- 1022) \<le> 2 powi (expo x)"
    using expo_ge[of x] by (intro power_int_increasing) auto
  with l a show False by linarith
qed

lemma expo_eq:
  assumes "- 1022 \<le> e" "e \<le> 1023" "2 powi e \<le> \<bar>x\<bar>" "\<bar>x\<bar> < 2 powi (e + 1)"
  shows "expo x = e"
proof (rule ccontr)
  assume n: "expo x \<noteq> e"
  show False
  proof (cases "expo x < e")
    case True
    then have "\<bar>x\<bar> < 2 powi e" using expo_from_upper[of x 2045 e] assms(2) by (simp add: expo_def)
    with assms(3) show False by linarith
  next
    case False
    with n have g: "e + 1 \<le> expo x" by linarith
    with assms(1) have "expo x \<noteq> - 1022" by linarith
    then have l: "2 powi (expo x) \<le> \<bar>x\<bar>" using expo_from_lower[of x 2045] by (simp add: expo_def)
    have "(2::real) powi (e + 1) \<le> 2 powi (expo x)"
      using g by (intro power_int_increasing) auto
    with l assms(4) show False by linarith
  qed
qed

lemma ulp_pos: "0 < ulp x"
  by (simp add: ulp_def zero_less_power_int)


lemma rnd_of_int_ulp:
  assumes "x / ulp x = of_int n"
  shows "rnd x = x"
proof -
  have "rnd x = of_int n * ulp x" by (simp add: rnd_def assms)
  also have "\<dots> = x" using assms ulp_pos[of x] by (simp add: field_simps)
  finally show ?thesis .
qed

lemma rnd_exact:
  assumes x: "x = of_int m * 2 powi k" and k: "- 1074 \<le> k" and m: "\<bar>m\<bar> \<le> 2 ^ 53"
  shows "rnd x = x"
proof (cases "expo x - 52 \<le> k")
  case True
  define d where "d = nat (k - (expo x - 52))"
  have kd: "k = (expo x - 52) + int d" using True by (simp add: d_def)
  have "(2::real) powi k = 2 powi (expo x - 52) * 2 ^ d"
    by (subst kd, subst power_int_add) (simp_all add: power_int_of_nat)
  then have "x / ulp x = of_int (m * 2 ^ d)"
    using ulp_pos[of x] by (simp add: x ulp_def field_simps)
  then show ?thesis by (rule rnd_of_int_ulp)
next
  case False
  then have g: "k + 53 \<le> expo x" by linarith
  with k have "expo x \<noteq> - 1022" by linarith
  then have "2 powi (- 1022) \<le> \<bar>x\<bar> \<or> \<bar>x\<bar> < 2 powi (- 1022)" by linarith
  with \<open>expo x \<noteq> - 1022\<close> expo_subnormal[of x] have "2 powi (- 1022) \<le> \<bar>x\<bar>" by blast
  then have l: "2 powi (expo x) \<le> \<bar>x\<bar>" by (rule expo_lower)
  have p: "(2::real) powi (k + 53) = 2 ^ 53 * 2 powi k"
    by (subst power_int_add) simp_all
  have "(2::real) powi (k + 53) \<le> 2 powi (expo x)"
    using g by (intro power_int_increasing) auto
  with l have "(2::real) ^ 53 * 2 powi k \<le> \<bar>x\<bar>" using p by linarith
  also have "\<bar>x\<bar> = \<bar>of_int m\<bar> * 2 powi k" by (simp add: x abs_mult)
  finally have "(2::real) ^ 53 \<le> \<bar>of_int m\<bar>"
    using zero_less_power_int[of "2::real" k] by simp
  then have "(2::int) ^ 53 \<le> \<bar>m\<bar>"
    by (metis of_int_abs of_int_le_iff of_int_numeral of_int_power)
  with m have am: "\<bar>m\<bar> = 2 ^ 53" by linarith
  have "\<bar>x\<bar> = 2 powi (k + 53)"
    using am p by (simp add: x abs_mult flip: of_int_abs)
  then have "\<bar>x\<bar> < 2 powi (k + 53 + 1)"
    using power_int_strict_increasing[of "k + 53" "k + 53 + 1" "2::real"] by simp
  have le: "expo x \<le> k + 53"
  proof (rule ccontr)
    assume "\<not> expo x \<le> k + 53"
    then have "k + 53 + 1 \<le> expo x" by linarith
    then have "(2::real) powi (k + 53 + 1) \<le> 2 powi (expo x)"
      by (intro power_int_increasing) auto
    with l \<open>\<bar>x\<bar> < 2 powi (k + 53 + 1)\<close> show False by linarith
  qed
  with g have e: "expo x = k + 53" by linarith
  have u: "ulp x = 2 * 2 powi k"
    unfolding ulp_def e by (simp add: power_int_add)
  from am have "m = 2 ^ 53 \<or> m = - (2 ^ 53)" by linarith
  note mm = this
  have "x / ulp x = of_int m / 2"
    unfolding u using zero_less_power_int[of "2::real" k] by (simp add: x)
  also have "\<dots> = of_int (m div 2)"
    using mm by auto
  finally show ?thesis by (rule rnd_of_int_ulp)
qed

lemma rnd_zero [simp]: "rnd 0 = 0"
  using rne_of_int[of 0] by (simp add: rnd_def)

lemma rnd_pow2: "- 1074 \<le> k \<Longrightarrow> rnd (2 powi k) = 2 powi k"
  using rnd_exact[of "2 powi k" 1 k] by simp

lemma rnd_int: "\<bar>m\<bar> \<le> 2 ^ 53 \<Longrightarrow> rnd (of_int m) = of_int m"
  using rnd_exact[of "of_int m" m 0] by simp

lemma rnd_one [simp]: "rnd 1 = 1"
  using rnd_int[of 1] by simp

lemma rnd_underflow:
  assumes "\<bar>x\<bar> \<le> 2 powi (- 1075)"
  shows "rnd x = 0"
proof -
  have "(2::real) powi (- 1075) < 2 powi (- 1022)"
    by (intro power_int_strict_increasing) auto
  with assms have "\<bar>x\<bar> < 2 powi (- 1022)" by linarith
  then have e: "expo x = - 1022" by (rule expo_subnormal)
  have u: "ulp x = 2 powi (- 1074)" by (simp add: ulp_def e)
  have "(2::real) powi (- 1074) = 2 powi (- 1075 + 1)" by simp
  also have "\<dots> = 2 powi (- 1075) * 2" by (subst power_int_add) simp_all
  finally have h: "(2::real) powi (- 1074) = 2 powi (- 1075) * 2" .
  have "\<bar>x / ulp x\<bar> = \<bar>x\<bar> / ulp x" using ulp_pos[of x] by simp
  also have "\<dots> \<le> 1 / 2"
    using assms zero_less_power_int[of "2::real" "- 1075"] unfolding u h by (simp add: field_simps)
  finally have "rne (x / ulp x) = 0" by (rule rne_half_down)
  then show ?thesis by (simp add: rnd_def)
qed

lemma rnd_err:
  assumes "2 powi (- 1022) \<le> \<bar>x\<bar>"
  shows "\<bar>rnd x - x\<bar> \<le> \<bar>x\<bar> / 2 ^ 53"
proof -
  have l: "2 powi (expo x) \<le> \<bar>x\<bar>" using assms by (rule expo_lower)
  have "(2::real) powi (expo x) = 2 powi ((expo x - 52) + 52)" by simp
  also have "\<dots> = ulp x * 2 ^ 52" unfolding ulp_def by (subst power_int_add) simp_all
  finally have ux: "ulp x * 2 ^ 52 \<le> \<bar>x\<bar>" using l by simp
  have "rnd x - x = (of_int (rne (x / ulp x)) - x / ulp x) * ulp x"
    using ulp_pos[of x] by (simp add: rnd_def field_simps)
  then have "\<bar>rnd x - x\<bar> = \<bar>of_int (rne (x / ulp x)) - x / ulp x\<bar> * ulp x"
    using ulp_pos[of x] by (simp add: abs_mult)
  also have "\<dots> \<le> 1 / 2 * ulp x"
    using rne_err[of "x / ulp x"] ulp_pos[of x] by (intro mult_right_mono) auto
  also have "\<dots> \<le> \<bar>x\<bar> / 2 ^ 53" using ux by simp
  finally show ?thesis .
qed


lemma rne_bound:
  assumes "\<bar>y\<bar> < 2 ^ 53"
  shows "\<bar>rne y\<bar> \<le> 2 ^ 53"
proof -
  have "\<bar>of_int (rne y)\<bar> < (2::real) ^ 53 + 1" using rne_err[of y] assms by linarith
  then have "of_int \<bar>rne y\<bar> < (of_int (2 ^ 53 + 1) :: real)" by simp
  then have "\<bar>rne y\<bar> < 2 ^ 53 + 1" by (simp only: of_int_less_iff)
  then show ?thesis by linarith
qed

lemma ulp_scale: "ulp x * 2 ^ 53 = 2 powi (expo x + 1)"
proof -
  have a: "expo x + 1 = (expo x - 52) + 53" by simp
  show ?thesis unfolding ulp_def by (subst a, subst power_int_add) simp_all
qed

lemma ulp_scale': "ulp x * 2 ^ 52 = 2 powi (expo x)"
proof -
  have a: "expo x = (expo x - 52) + 52" by simp
  show ?thesis unfolding ulp_def by (subst (2) a, subst power_int_add) simp_all
qed

lemma rnd_idem:
  assumes "\<bar>x\<bar> < 2 powi 1024"
  shows "rnd (rnd x) = rnd x"
proof -
  have "\<bar>x\<bar> < ulp x * 2 ^ 53" using expo_upper[OF assms] by (simp only: ulp_scale)
  then have "\<bar>x / ulp x\<bar> < 2 ^ 53" using ulp_pos[of x] by (simp add: field_simps)
  then have "\<bar>rne (x / ulp x)\<bar> \<le> 2 ^ 53" by (rule rne_bound)
  moreover have "- 1074 \<le> expo x - 52" using expo_ge[of x] by simp
  moreover have "rnd x = of_int (rne (x / ulp x)) * 2 powi (expo x - 52)"
    by (simp add: rnd_def ulp_def)
  ultimately show ?thesis using rnd_exact by blast
qed

lemma expo_top:
  assumes "2 powi 1023 \<le> \<bar>x\<bar>"
  shows "expo x = 1023"
proof -
  have n: "(2045::nat) = Suc 2044" by simp
  have i: "int (Suc 2044) - 1022 = 1023" by simp
  show ?thesis unfolding expo_def n expo_from.simps i using assms by (simp only: if_True)
qed

lemma rnd_overflow:
  assumes "2 powi 1024 \<le> \<bar>x\<bar>"
  shows "2 powi 1024 \<le> \<bar>rnd x\<bar>"
proof -
  have "(2::real) powi 1023 \<le> 2 powi 1024" by (intro power_int_increasing) auto
  with assms have "2 powi 1023 \<le> \<bar>x\<bar>" by linarith
  then have e: "expo x = 1023" by (rule expo_top)
  have u: "ulp x * 2 ^ 53 = 2 powi 1024" using ulp_scale[of x] by (simp only: e) simp
  have "2 ^ 53 \<le> \<bar>x / ulp x\<bar>" using assms ulp_pos[of x] u by (simp add: field_simps)
  then have "(2::real) ^ 53 - 1 < \<bar>of_int (rne (x / ulp x))\<bar>" using rne_err[of "x / ulp x"] by linarith
  then have "(of_int (2 ^ 53 - 1) :: real) < of_int \<bar>rne (x / ulp x)\<bar>" by simp
  then have "2 ^ 53 - 1 < \<bar>rne (x / ulp x)\<bar>" by (simp only: of_int_less_iff)
  then have "2 ^ 53 \<le> \<bar>rne (x / ulp x)\<bar>" by linarith
  then have "(of_int (2 ^ 53) :: real) \<le> of_int \<bar>rne (x / ulp x)\<bar>" by (simp only: of_int_le_iff)
  then have "(2::real) ^ 53 \<le> \<bar>of_int (rne (x / ulp x))\<bar>" by simp
  then have "2 ^ 53 * ulp x \<le> \<bar>of_int (rne (x / ulp x))\<bar> * ulp x"
    using ulp_pos[of x] by (intro mult_right_mono) auto
  then show ?thesis using u ulp_pos[of x] by (simp add: rnd_def abs_mult mult.commute)
qed


lemma sqrt_square_bounds:
  fixes m u P D :: real
  assumes D: "D = 2 ^ 53" and u: "0 < u"
    and m1: "D / 2 + 1 \<le> m" and m2: "m \<le> D - 1"
    and err: "\<bar>P - m * m * u * u\<bar> \<le> m * m * u * u / D"
  shows "(m - 1 / 2) * u < sqrt P \<and> sqrt P < (m + 1 / 2) * u"
proof -
  have Dp: "0 < D" by (simp add: D)
  have D2: "2 \<le> D" by (simp add: D)
  have mp: "0 < m" using m1 Dp by linarith
  define r where "r = m * m / D"
  define U where "U = u * u"
  have Up: "0 < U" using u by (simp add: U_def)
  have "m * 1 \<le> m * (D - m)" using m2 mp by (intro mult_left_mono) auto
  then have "m + m * m \<le> m * D" by (simp add: algebra_simps)
  then have "(m + m * m) / D \<le> m" using Dp by (simp add: field_simps)
  then have "m / D + r \<le> m" by (simp add: r_def add_divide_distrib)
  moreover have "1 / 2 \<le> m / D" using m1 Dp by (simp add: field_simps)
  ultimately have r: "r \<le> m - 1 / 2" by linarith
  have pe: "m * m * u * u / D = r * U" by (simp add: r_def U_def)
  have pm: "m * m * u * u = m * m * U" by (simp add: U_def)
  have err': "\<bar>P - m * m * U\<bar> \<le> r * U" using err pe pm by simp
  then have "P - m * m * U \<le> r * U" "- (r * U) \<le> P - m * m * U" by linarith+
  then have e1: "P \<le> (m * m + r) * U" and e2: "(m * m - r) * U \<le> P"
    by (simp_all add: algebra_simps)
  have "(m * m + r) * U \<le> (m * m + m - 1 / 2) * U"
    using r Up by (intro mult_right_mono) auto
  also have "\<dots> < (m * m + m + 1 / 4) * U"
    using Up by (intro mult_strict_right_mono) auto
  also have "\<dots> = ((m + 1 / 2) * u)\<^sup>2"
    by (simp add: U_def power2_eq_square algebra_simps)
  finally have up: "P < ((m + 1 / 2) * u)\<^sup>2" using e1 by linarith
  have "((m - 1 / 2) * u)\<^sup>2 = (m * m - m + 1 / 4) * U"
    by (simp add: U_def power2_eq_square algebra_simps)
  also have "\<dots> < (m * m - m + 1 / 2) * U"
    using Up by (intro mult_strict_right_mono) auto
  also have "\<dots> \<le> (m * m - r) * U"
    using r Up by (intro mult_right_mono) auto
  finally have lo: "((m - 1 / 2) * u)\<^sup>2 < P" using e2 by linarith
  have "0 \<le> (m + 1 / 2) * u" using mp u by simp
  with up have "sqrt P < (m + 1 / 2) * u" by (intro real_less_lsqrt) auto
  moreover from lo have "(m - 1 / 2) * u < sqrt P" by (rule real_less_rsqrt)
  ultimately show ?thesis by simp
qed

lemma sqrt_square_roundtrip:
  assumes f: "rnd s = s" and lo: "2 powi (- 511) \<le> s" and hi: "s \<le> 2 powi 511"
  shows "rnd (sqrt (rnd (s * s))) = s"
proof -
  have sp: "0 < s" using lo zero_less_power_int[of "2::real" "- 511"] by linarith
  then have as: "\<bar>s\<bar> = s" by simp
  define e where "e = expo s"
  define u where "u = ulp s"
  define M where "M = rne (s / u)"
  have up: "0 < u" by (simp add: u_def ulp_pos)
  have udef: "u = 2 powi (e - 52)" by (simp add: u_def e_def ulp_def)
  have sM: "s = of_int M * u" using f by (simp add: M_def u_def rnd_def)
  have "(2::real) powi (- 1022) \<le> 2 powi (- 511)" by (intro power_int_increasing) auto
  with lo as have "2 powi (- 1022) \<le> \<bar>s\<bar>" by linarith
  then have el: "2 powi e \<le> s" using expo_lower[of s] as by (simp add: e_def)
  have "(2::real) powi 511 < 2 powi 1024" by (intro power_int_strict_increasing) auto
  with hi as have "\<bar>s\<bar> < 2 powi 1024" by linarith
  then have eu: "s < 2 powi (e + 1)" using expo_upper[of s] as by (simp add: e_def)
  have e1: "- 511 \<le> e"
  proof (rule ccontr)
    assume "\<not> - 511 \<le> e"
    then have "e + 1 \<le> - 511" by linarith
    then have "(2::real) powi (e + 1) \<le> 2 powi (- 511)" by (intro power_int_increasing) auto
    with eu lo show False by linarith
  qed
  have e2: "e \<le> 511"
  proof (rule ccontr)
    assume "\<not> e \<le> 511"
    then have "511 < e" by linarith
    then have "(2::real) powi 511 < 2 powi e" by (intro power_int_strict_increasing) auto
    with el hi show False by linarith
  qed
  have s52: "u * 2 ^ 52 = 2 powi e" using ulp_scale'[of s] by (simp add: u_def e_def)
  have s53: "u * 2 ^ 53 = 2 powi (e + 1)" using ulp_scale[of s] by (simp add: u_def e_def)
  have "u * 2 ^ 52 \<le> of_int M * u" using el sM s52 by simp
  then have M1r: "(2::real) ^ 52 \<le> of_int M" using up by simp
  have "of_int M * u < u * 2 ^ 53" using eu sM s53 by simp
  then have M2r: "of_int M < (2::real) ^ 53" using up by simp
  from M1r have "(of_int (2 ^ 52) :: real) \<le> of_int M" by simp
  then have M1: "2 ^ 52 \<le> M" by (simp only: of_int_le_iff)
  from M2r have "(of_int M :: real) < of_int (2 ^ 53)" by simp
  then have M2: "M < 2 ^ 53" by (simp only: of_int_less_iff)
  show ?thesis
  proof (cases "M = 2 ^ 52")
    case True
    then have "s = u * 2 ^ 52" using sM by simp
    then have se: "s = 2 powi e" using s52 by simp
    have "s * s = 2 powi (e + e)" unfolding se by (subst power_int_add) simp_all
    moreover have "- 1074 \<le> e + e" using e1 by simp
    ultimately have "rnd (s * s) = s * s" using rnd_pow2[of "e + e"] by simp
    then show ?thesis using sp f by (simp add: real_sqrt_mult_self)
  next
    case False
    with M1 have M1': "2 ^ 52 + 1 \<le> M" by linarith
    from M2 have M2': "M \<le> 2 ^ 53 - 1" by linarith
    define m :: real where "m = of_int M"
    define D :: real where "D = 2 ^ 53"
    have "(of_int (2 ^ 52 + 1) :: real) \<le> of_int M" using M1' by (simp only: of_int_le_iff)
    then have m1: "D / 2 + 1 \<le> m" by (simp add: m_def D_def)
    have "(of_int M :: real) \<le> of_int (2 ^ 53 - 1)" using M2' by (simp only: of_int_le_iff)
    then have m2: "m \<le> D - 1" by (simp add: m_def D_def)
    have ss: "s * s = m * m * u * u" by (simp add: sM m_def)
    have "2 powi (- 511) * 2 powi (- 511) \<le> s * s"
      using lo zero_less_power_int[of "2::real" "- 511"] by (intro mult_mono) auto
    moreover have "(2::real) powi (- 511) * 2 powi (- 511) = 2 powi (- 1022)"
      by (subst power_int_add[symmetric]) simp_all
    ultimately have "2 powi (- 1022) \<le> \<bar>s * s\<bar>" by simp
    then have "\<bar>rnd (s * s) - s * s\<bar> \<le> \<bar>s * s\<bar> / 2 ^ 53" by (rule rnd_err)
    then have err: "\<bar>rnd (s * s) - m * m * u * u\<bar> \<le> m * m * u * u / D"
      by (simp add: ss[symmetric] D_def)
    define q where "q = sqrt (rnd (s * s))"
    have qb: "(m - 1 / 2) * u < q \<and> q < (m + 1 / 2) * u"
      unfolding q_def using D_def up m1 m2 err by (rule sqrt_square_bounds)
    have "2 powi e = (D / 2) * u" using s52 by (simp add: D_def)
    also have "\<dots> \<le> (m - 1 / 2) * u" using m1 up by (intro mult_right_mono) auto
    finally have ql: "2 powi e \<le> q" using qb by linarith
    have "(m + 1 / 2) * u \<le> D * u" using m2 up by (intro mult_right_mono) auto
    also have "\<dots> = 2 powi (e + 1)" using s53 by (simp add: D_def mult.commute)
    finally have qu: "q < 2 powi (e + 1)" using qb by linarith
    have qp: "0 < q" using ql zero_less_power_int[of "2::real" e] by linarith
    have "expo q = e" using e1 e2 ql qu qp by (intro expo_eq) auto
    then have uq: "ulp q = u" by (simp add: ulp_def udef)
    have x1: "(m - 1 / 2) * u = m * u - u / 2" and x2: "(m + 1 / 2) * u = m * u + u / 2"
      by (simp_all add: algebra_simps)
    from qb have "m * u - u / 2 < q" "q < m * u + u / 2" unfolding x1 x2 by simp_all
    then have ab: "\<bar>q - m * u\<bar> < u / 2" by linarith
    have "q / u - m = (q - m * u) / u" using up by (simp add: field_simps)
    then have "\<bar>q / u - m\<bar> = \<bar>q - m * u\<bar> / u" using up by simp
    also have "\<dots> < 1 / 2" using ab up by (simp add: field_simps)
    finally have "\<bar>q / u - of_int M\<bar> < 1 / 2" by (simp add: m_def)
    then have "rne (q / u) = M" by (rule rne_near)
    then have "rnd q = s" by (simp add: rnd_def uq sM)
    then show ?thesis by (simp add: q_def)
  qed
qed

lemma rnd_abs_err: "\<bar>rnd x - x\<bar> \<le> ulp x / 2"
proof -
  have "rnd x - x = (of_int (rne (x / ulp x)) - x / ulp x) * ulp x"
    using ulp_pos[of x] by (simp add: rnd_def field_simps)
  then have "\<bar>rnd x - x\<bar> = \<bar>of_int (rne (x / ulp x)) - x / ulp x\<bar> * ulp x"
    using ulp_pos[of x] by (simp add: abs_mult)
  also have "\<dots> \<le> 1 / 2 * ulp x"
    using rne_err[of "x / ulp x"] ulp_pos[of x] by (intro mult_right_mono) auto
  finally show ?thesis by simp
qed

lemma ulp_le: "ulp x \<le> 2 powi 971"
  unfolding ulp_def using expo_le[of x] by (intro power_int_increasing) auto

lemma rnd_no_overflow:
  assumes "\<bar>x\<bar> \<le> 2 powi 1023"
  shows "\<bar>rnd x\<bar> < 2 powi 1024"
proof -
  have "\<bar>rnd x\<bar> \<le> \<bar>x\<bar> + ulp x / 2" using rnd_abs_err[of x] by linarith
  also have "\<dots> \<le> 2 powi 1023 + 2 powi 971 / 2" using assms ulp_le[of x] by linarith
  also have "\<dots> < 2 powi 1024" by simp
  finally show ?thesis .
qed

lemma to_f64_Fin:
  assumes "to_f64 x = Fin r"
  shows "r = rnd x \<and> \<bar>r\<bar> < 2 powi 1024 \<and> rnd r = r"
proof -
  from assms have r: "r = rnd x" and b: "\<not> 2 powi 1024 \<le> rnd x" "\<not> rnd x \<le> - (2 powi 1024)"
    by (auto simp: to_f64_def Let_def split: if_splits)
  then have a: "\<bar>rnd x\<bar> < 2 powi 1024" by linarith
  have "\<bar>x\<bar> < 2 powi 1024"
  proof (rule ccontr)
    assume "\<not> \<bar>x\<bar> < 2 powi 1024"
    then have "2 powi 1024 \<le> \<bar>rnd x\<bar>" using rnd_overflow[of x] by simp
    with a show False by linarith
  qed
  then have "rnd (rnd x) = rnd x" by (rule rnd_idem)
  with r a show ?thesis by simp
qed

lemma to_f64_exact: "rnd x = x \<Longrightarrow> \<bar>x\<bar> < 2 powi 1024 \<Longrightarrow> to_f64 x = Fin x"
  by (auto simp: to_f64_def Let_def)

lemma to_f64_zero [simp]: "to_f64 0 = Fin 0"
  by (simp add: to_f64_def)

lemma to_f64_one [simp]: "to_f64 1 = Fin 1"
  by (simp add: to_f64_def)

subsubsection \<open>A constant column\<close>

lemma to_f64_small: "\<bar>x\<bar> \<le> 2 powi 1023 \<Longrightarrow> to_f64 x = Fin (rnd x)"
  using rnd_no_overflow[of x] by (auto simp: to_f64_def Let_def)

lemma to_f64_not_NaN [simp]: "to_f64 x \<noteq> NaN"
  by (simp add: to_f64_def Let_def)

lemma to_f64_rep: "rnd r = r \<Longrightarrow> \<bar>r\<bar> < 2 powi 1024 \<Longrightarrow> to_f64 r = Fin r"
  by (auto simp: to_f64_def Let_def)

lemma rnd_pos:
  assumes "1 \<le> x"
  shows "1 / 2 \<le> rnd x"
proof -
  have "(2::real) powi (- 1022) \<le> 2 powi 0" by (intro power_int_increasing) auto
  with assms have "2 powi (- 1022) \<le> \<bar>x\<bar>" by simp
  then have e: "\<bar>rnd x - x\<bar> \<le> \<bar>x\<bar> / 2 ^ 53" by (rule rnd_err)
  define d where "d = x / 2 ^ 53"
  have "\<bar>x\<bar> = x" using assms by simp
  with e have "\<bar>rnd x - x\<bar> \<le> d" by (simp only: d_def)
  moreover have "d \<le> x / 2" unfolding d_def using assms by (intro divide_left_mono) auto
  ultimately show ?thesis using assms by linarith
qed

lemma inv_finite:
  assumes "1 \<le> x"
  shows "\<exists>q. fdiv (Fin 1) (to_f64 x) = Fin q"
proof (cases "to_f64 x")
  case (Fin k)
  then have k: "k = rnd x" using to_f64_Fin by blast
  have "1 / 2 \<le> k" unfolding k using assms by (rule rnd_pos)
  then have kp: "0 < k" by linarith
  then have "1 / k \<le> 2" using \<open>1 / 2 \<le> k\<close> by (simp add: field_simps)
  moreover have "0 < 1 / k" using kp by simp
  moreover have "(2::real) powi 1 \<le> 2 powi 1023" by (intro power_int_increasing) auto
  ultimately have "\<bar>1 / k\<bar> \<le> 2 powi 1023" by simp
  then have "to_f64 (1 / k) = Fin (rnd (1 / k))" by (rule to_f64_small)
  then show ?thesis using Fin kp by simp
qed simp_all

lemma mean_const:
  assumes r: "rnd r = r" "\<bar>r\<bar> < 2 powi 1024" and m: "(n = 0 \<and> m = Fin 0) \<or> m = Fin r"
  shows "fadd m (fmul (fdiv (Fin 1) (to_f64 (real (n + 1)))) (fsub (Fin r) m)) = Fin r"
proof (cases "m = Fin r")
  case True
  obtain q where q: "fdiv (Fin 1) (to_f64 (1 + real n)) = Fin q"
    using inv_finite[of "1 + real n"] by auto
  show ?thesis using r by (simp add: True q to_f64_rep)
next
  case False
  with m have n: "n = 0" and m0: "m = Fin 0" by auto
  show ?thesis using r by (simp add: n m0 to_f64_rep)
qed

lemma dev_const:
  assumes r: "rnd r = r" "\<bar>r\<bar> < 2 powi 1024" and m: "(n = 0 \<and> m = Fin 0) \<or> m = Fin r"
  shows "fmul (fsub (Fin r) (Fin r)) (fsub (Fin r) m) = Fin 0"
proof (cases "m = Fin r")
  case True
  then show ?thesis by simp
next
  case False
  with m have m0: "m = Fin 0" by auto
  show ?thesis using r by (simp add: m0 to_f64_rep)
qed

lemma acc_step_const_x:
  assumes "const_x r a" "rnd r = r" "\<bar>r\<bar> < 2 powi 1024"
  shows "const_x r (acc_step (Fin r, y) a)"
  using assms mean_const[of r "nobs a" "meanx a"] dev_const[of r "nobs a" "meanx a"]
  by (auto simp: const_x_def acc_step_def Let_def)

lemma acc_step_const_y:
  assumes "const_y r a" "rnd r = r" "\<bar>r\<bar> < 2 powi 1024"
  shows "const_y r (acc_step (x, Fin r) a)"
  using assms mean_const[of r "nobs a" "meany a"] dev_const[of r "nobs a" "meany a"]
  by (auto simp: const_y_def acc_step_def Let_def)

lemma fold_const_x:
  assumes "\<forall>x \<in> set xs. x = Fin r" "rnd r = r" "\<bar>r\<bar> < 2 powi 1024" "const_x r a"
  shows "const_x r (fold acc_step (zip xs ys) a)"
  using assms
proof (induction xs arbitrary: ys a)
  case Nil
  then show ?case by simp
next
  case (Cons x xs)
  show ?case
  proof (cases ys)
    case Nil
    then show ?thesis using Cons.prems by simp
  next
    case (Cons y ys')
    have "const_x r (acc_step (Fin r, y) a)"
      using Cons.prems by (intro acc_step_const_x) auto
    then show ?thesis using Cons.IH[of "acc_step (Fin r, y) a" ys'] Cons.prems Cons by simp
  qed
qed

lemma fold_const_y:
  assumes "\<forall>y \<in> set ys. y = Fin r" "rnd r = r" "\<bar>r\<bar> < 2 powi 1024" "const_y r a"
  shows "const_y r (fold acc_step (zip xs ys) a)"
  using assms
proof (induction ys arbitrary: xs a)
  case Nil
  then show ?case by simp
next
  case (Cons y ys)
  show ?case
  proof (cases xs)
    case Nil
    then show ?thesis using Cons.prems by simp
  next
    case (Cons x xs')
    have "const_y r (acc_step (x, Fin r) a)"
      using Cons.prems by (intro acc_step_const_y) auto
    then show ?thesis using Cons.IH[of "acc_step (x, Fin r) a" xs'] Cons.prems Cons by simp
  qed
qed

lemma fold_skip_x:
  assumes "\<forall>x \<in> set xs. \<not> isfinite x"
  shows "fold acc_step (zip xs ys) a = a"
  using assms
proof (induction xs arbitrary: ys a)
  case Nil
  then show ?case by simp
next
  case (Cons x xs)
  then show ?case by (cases ys) (simp_all add: acc_step_def)
qed

lemma fold_skip_y:
  assumes "\<forall>y \<in> set ys. \<not> isfinite y"
  shows "fold acc_step (zip xs ys) a = a"
  using assms
proof (induction ys arbitrary: xs a)
  case Nil
  then show ?case by simp
next
  case (Cons y ys)
  then show ?case by (cases xs) (simp_all add: acc_step_def)
qed

lemma fmul_zero_left: "fsqrt (fmul (Fin 0) s) = Fin 0 \<or> fsqrt (fmul (Fin 0) s) = NaN"
  by (cases s) simp_all

lemma fmul_zero_right: "fsqrt (fmul s (Fin 0)) = Fin 0 \<or> fsqrt (fmul s (Fin 0)) = NaN"
  by (cases s) simp_all

lemma fdiv_NaN [simp]: "fdiv c NaN = NaN"
  by (cases c) simp_all

lemma clip_NaN [simp]: "clip NaN = NaN"
  by (simp add: clip_def)

lemma nancorr_pair_zero:
  assumes "ssqdm_x (fold acc_step (zip xs ys) acc_init) = Fin 0
           \<or> ssqdm_y (fold acc_step (zip xs ys) acc_init) = Fin 0"
  shows "nancorr_pair clipped minp xs ys = NaN"
proof -
  let ?a = "fold acc_step (zip xs ys) acc_init"
  have "fsqrt (fmul (ssqdm_x ?a) (ssqdm_y ?a)) = Fin 0 \<or> fsqrt (fmul (ssqdm_x ?a) (ssqdm_y ?a)) = NaN"
    using assms fmul_zero_left[of "ssqdm_y ?a"] fmul_zero_right[of "ssqdm_x ?a"] by auto
  then show ?thesis
    by (auto simp: nancorr_pair_def Let_def fne_def)
qed

lemma const_x_init: "const_x r acc_init"
  by (simp add: const_x_def acc_init_def)

lemma const_y_init: "const_y r acc_init"
  by (simp add: const_y_def acc_init_def)

lemma nancorr_pair_const_x:
  assumes "\<forall>x \<in> set xs. x = to_f64 v"
  shows "nancorr_pair clipped minp xs ys = NaN"
proof (cases "to_f64 v")
  case (Fin r)
  then have "rnd r = r" "\<bar>r\<bar> < 2 powi 1024" using to_f64_Fin by blast+
  then have "const_x r (fold acc_step (zip xs ys) acc_init)"
    using assms Fin by (intro fold_const_x const_x_init) auto
  then show ?thesis by (intro nancorr_pair_zero) (simp add: const_x_def)
next
  case PInf
  then have "fold acc_step (zip xs ys) acc_init = acc_init"
    using assms by (intro fold_skip_x) auto
  then show ?thesis by (intro nancorr_pair_zero) (simp add: acc_init_def)
next
  case NInf
  then have "fold acc_step (zip xs ys) acc_init = acc_init"
    using assms by (intro fold_skip_x) auto
  then show ?thesis by (intro nancorr_pair_zero) (simp add: acc_init_def)
next
  case NaN
  then show ?thesis by simp
qed

lemma nancorr_pair_const_y:
  assumes "\<forall>y \<in> set ys. y = to_f64 v"
  shows "nancorr_pair clipped minp xs ys = NaN"
proof (cases "to_f64 v")
  case (Fin r)
  then have "rnd r = r" "\<bar>r\<bar> < 2 powi 1024" using to_f64_Fin by blast+
  then have "const_y r (fold acc_step (zip xs ys) acc_init)"
    using assms Fin by (intro fold_const_y const_y_init) auto
  then show ?thesis by (intro nancorr_pair_zero) (simp add: const_y_def)
next
  case PInf
  then have "fold acc_step (zip xs ys) acc_init = acc_init"
    using assms by (intro fold_skip_y) auto
  then show ?thesis by (intro nancorr_pair_zero) (simp add: acc_init_def)
next
  case NInf
  then have "fold acc_step (zip xs ys) acc_init = acc_init"
    using assms by (intro fold_skip_y) auto
  then show ?thesis by (intro nancorr_pair_zero) (simp add: acc_init_def)
next
  case NaN
  then show ?thesis by simp
qed

subsubsection \<open>A column paired with itself\<close>

lemma rne_nonneg: "0 \<le> y \<Longrightarrow> 0 \<le> rne y"
proof -
  assume "0 \<le> y"
  then have "0 \<le> \<lfloor>y\<rfloor>" by simp
  then show ?thesis by (simp add: rne_def Let_def)
qed

lemma rnd_nonneg: "0 \<le> x \<Longrightarrow> 0 \<le> rnd x"
  using rne_nonneg[of "x / ulp x"] ulp_pos[of x] by (simp add: rnd_def)

lemma to_f64_val: "\<bar>rnd x\<bar> < 2 powi 1024 \<Longrightarrow> to_f64 x = Fin (rnd x)"
  by (auto simp: to_f64_def Let_def)

lemma fadd_rep: "rep (fadd a b)"
proof (cases "fadd a b")
  case (Fin r)
  then obtain x where "to_f64 x = Fin r" by (cases a; cases b) auto
  then show ?thesis using to_f64_Fin Fin by auto
qed simp_all

lemma diag_inv_init: "diag_inv acc_init"
  by (simp add: diag_inv_def acc_init_def)

lemma diag_inv_step: "diag_inv a \<Longrightarrow> diag_inv (acc_step (x, x) a)"
  by (simp add: diag_inv_def acc_step_def Let_def fadd_rep)

lemma diag_inv_fold: "diag_inv a \<Longrightarrow> diag_inv (fold acc_step (zip xs xs) a)"
proof (induction xs arbitrary: a)
  case Nil
  then show ?case by simp
next
  case (Cons x xs)
  then show ?case by (simp add: diag_inv_step)
qed

lemma nancorr_pair_self:
  assumes s: "ssqdm_x (fold acc_step (zip xs xs) acc_init) = Fin s"
    and lo: "2 powi (- 511) \<le> s" and hi: "s \<le> 2 powi 511"
  shows "nancorr_pair clipped 1 xs xs = Fin 1"
proof -
  let ?a = "fold acc_step (zip xs xs) acc_init"
  have inv: "diag_inv ?a" by (intro diag_inv_fold diag_inv_init)
  have sp: "0 < s" using lo zero_less_power_int[of "2::real" "- 511"] by linarith
  from inv s have sy: "ssqdm_y ?a = Fin s" and c: "covxy ?a = Fin s" and r: "rnd s = s"
    and n: "nobs ?a \<noteq> 0"
    using sp by (auto simp: diag_inv_def)
  have "s * s \<le> 2 powi 511 * 2 powi 511" using hi sp by (intro mult_mono) auto
  also have "\<dots> = 2 powi 1022" by (subst power_int_add[symmetric]) simp_all
  also have "\<dots> \<le> 2 powi 1023" by (intro power_int_increasing) auto
  finally have "\<bar>s * s\<bar> \<le> 2 powi 1023" by simp
  then have m: "fmul (Fin s) (Fin s) = Fin (rnd (s * s))" by (simp add: to_f64_small)
  have P: "0 \<le> rnd (s * s)" by (intro rnd_nonneg) simp
  have rt: "rnd (sqrt (rnd (s * s))) = s" using r lo hi by (rule sqrt_square_roundtrip)
  have "(2::real) powi 511 < 2 powi 1024" by (intro power_int_strict_increasing) auto
  with hi sp have "\<bar>s\<bar> < 2 powi 1024" by simp
  then have "to_f64 (sqrt (rnd (s * s))) = Fin s"
    using to_f64_val[of "sqrt (rnd (s * s))"] by (simp only: rt)
  then have "fsqrt (fmul (Fin s) (Fin s)) = Fin s" using P by (simp only: m) simp
  then have d: "fsqrt (to_f64 (s * s)) = Fin s" by simp
  have v: "fdiv (Fin s) (Fin s) = Fin 1" using sp by simp
  have "clip (Fin 1) = Fin 1" by (simp add: clip_def)
  then show ?thesis
    using n sp by (simp add: nancorr_pair_def Let_def s sy c d v fne_def)
qed

subsubsection \<open>The entries of the matrix\<close>

lemma sum_list_const: "\<forall>x \<in> set xs. x = c \<Longrightarrow> sum_list xs = real (length xs) * (c::real)"
  by (induction xs) (simp_all add: algebra_simps)

lemma variance_zero_iff:
  assumes "2 \<le> length xs"
  shows "variance xs = 0 \<longleftrightarrow> (\<forall>v \<in> set xs. \<forall>w \<in> set xs. v = w)"
proof -
  let ?S = "sum_list (map (\<lambda>x. (x - mean xs)\<^sup>2) xs)"
  have n1: "real (length xs - 1) \<noteq> 0" using assms by simp
  have v: "variance xs = 0 \<longleftrightarrow> ?S = 0"
    using n1 by (simp add: variance_def)
  have S: "?S = 0 \<longleftrightarrow> (\<forall>x \<in> set xs. x = mean xs)"
  proof -
    have "?S = 0 \<longleftrightarrow> (\<forall>y \<in> set (map (\<lambda>x. (x - mean xs)\<^sup>2) xs). y = 0)"
      by (rule sum_list_nonneg_eq_0_iff) auto
    then show ?thesis by simp
  qed
  show ?thesis
  proof
    assume "variance xs = 0"
    with v S have allm: "\<forall>x \<in> set xs. x = mean xs" by simp
    show "\<forall>v \<in> set xs. \<forall>w \<in> set xs. v = w"
    proof (intro ballI)
      fix v w assume "v \<in> set xs" "w \<in> set xs"
      with allm have "v = mean xs" "w = mean xs" by blast+
      then show "v = w" by simp
    qed
  next
    assume c: "\<forall>v \<in> set xs. \<forall>w \<in> set xs. v = w"
    from assms obtain x xs' where xs: "xs = x # xs'" by (cases xs) auto
    have allx: "\<forall>v \<in> set xs. v = x" using c xs by simp
    have len: "real (length xs) \<noteq> 0" using assms by auto
    have "mean xs = x"
      using sum_list_const[OF allx] len by (simp add: mean_def)
    with allx have "\<forall>v \<in> set xs. v = mean xs" by simp
    with v S show "variance xs = 0" by simp
  qed
qed

lemma constant_column:
  assumes "length xs < 2 \<or> variance xs = 0"
  shows "\<exists>c. \<forall>v \<in> set xs. v = c"
proof (cases "length xs < 2")
  case True
  then have "xs = [] \<or> (\<exists>x. xs = [x])"
    by (cases xs) (auto simp: length_Suc_conv)
  then show ?thesis by auto
next
  case False
  then have l: "2 \<le> length xs" by simp
  with assms False have "\<forall>v \<in> set xs. \<forall>w \<in> set xs. v = w"
    using variance_zero_iff[OF l] by simp
  moreover from l obtain x xs' where "xs = x # xs'" by (cases xs) auto
  ultimately have "\<forall>v \<in> set xs. v = x" by simp
  then show ?thesis by blast
qed

lemma corr_nth: "a < 5 \<Longrightarrow> b < 5 \<Longrightarrow> corr clipped view ! a ! b = corr_entry clipped view a b"
  by (simp add: corr_def)

lemma corr_entry_sym: "corr_entry clipped view a b = corr_entry clipped view b a"
  by (simp add: corr_entry_def)

lemma corr_entry_const:
  assumes "length view < 2 \<or> variance (series (sales_columns ! a) view) = 0"
  shows "corr_entry clipped view a b = NaN"
proof -
  have "length (series (sales_columns ! a) view) = length view" by (simp add: series_def)
  with assms obtain c where "\<forall>v \<in> set (series (sales_columns ! a) view). v = c"
    using constant_column[of "series (sales_columns ! a) view"] by auto
  then have c: "\<forall>x \<in> set (mat_column view a). x = to_f64 c"
    by (auto simp: mat_column_def)
  show ?thesis
    using nancorr_pair_const_x[OF c] nancorr_pair_const_y[OF c]
    by (simp add: corr_entry_def)
qed

lemma corr_entry_diag:
  assumes "ssqdm view a = Fin s" "2 powi (- 511) \<le> s" "s \<le> 2 powi 511"
  shows "corr_entry clipped view a a = Fin 1"
  using assms nancorr_pair_self[of "mat_column view a" s clipped]
  by (simp add: corr_entry_def ssqdm_def)

lemma to_f64_pow2:
  assumes "- 1074 \<le> k" "k \<le> 1023"
  shows "to_f64 (2 powi k) = Fin (2 powi k)"
proof -
  have "(2::real) powi k < 2 powi 1024" using assms by (intro power_int_strict_increasing) auto
  moreover have "0 < (2::real) powi k" by (simp add: zero_less_power_int)
  ultimately have "\<bar>(2::real) powi k\<bar> < 2 powi 1024" by simp
  then show ?thesis using rnd_pow2[OF assms(1)] by (intro to_f64_rep)
qed

lemma to_f64_underflow: "\<bar>x\<bar> \<le> 2 powi (- 1075) \<Longrightarrow> to_f64 x = Fin 0"
  using rnd_underflow[of x] by (simp add: to_f64_def)

lemma pass_zero_pow2:
  assumes "- 500 \<le> k" "k \<le> 500"
  shows "ssqdm_x (fold acc_step (zip [to_f64 0, to_f64 (2 powi k)] [to_f64 0, to_f64 (2 powi k)])
                    acc_init) = Fin (2 powi (2 * k - 1))"
proof -
  define c :: real where "c = 2 powi k"
  define h :: real where "h = 2 powi (k - 1)"
  define t :: real where "t = 2 powi (2 * k - 1)"
  have fc: "to_f64 c = Fin c" unfolding c_def using assms by (intro to_f64_pow2) auto
  have fh: "to_f64 h = Fin h" unfolding h_def using assms by (intro to_f64_pow2) auto
  have ft: "to_f64 t = Fin t" unfolding t_def using assms by (intro to_f64_pow2) auto
  have f2: "to_f64 2 = Fin 2" using to_f64_pow2[of 1] by simp
  have fhalf: "to_f64 (1 / 2) = Fin (1 / 2)" using to_f64_pow2[of "- 1"] by (simp add: power_int_minus)
  have "(2::real) powi k = 2 powi ((k - 1) + 1)" by simp
  also have "\<dots> = 2 powi (k - 1) * 2" by (subst power_int_add) simp_all
  finally have ch: "c = h * 2" by (simp add: c_def h_def)
  have "(2::real) powi (2 * k - 1) = 2 powi ((k - 1) + k)" by (simp add: algebra_simps)
  also have "\<dots> = 2 powi (k - 1) * 2 powi k" by (subst power_int_add) simp_all
  finally have hc: "h * c = t" by (simp add: c_def h_def t_def)
  have s1: "acc_step (Fin 0, Fin 0) acc_init =
      \<lparr>nobs = 1, meanx = Fin 0, meany = Fin 0, ssqdm_x = Fin 0, ssqdm_y = Fin 0, covxy = Fin 0\<rparr>"
    by (simp add: acc_step_def acc_init_def Let_def)
  have inv: "fdiv (Fin 1) (to_f64 (real (1 + 1))) = Fin (1 / 2)"
    by (simp add: f2 fhalf)
  have dx: "fsub (Fin c) (Fin 0) = Fin c" by (simp add: fc)
  have m: "fmul (Fin (1 / 2)) (Fin c) = Fin h" by (simp add: ch fh)
  have mx: "fadd (Fin 0) (Fin h) = Fin h" by (simp add: fh)
  have d2: "fsub (Fin c) (Fin h) = Fin h" by (simp add: ch fh)
  have p: "fmul (Fin h) (Fin c) = Fin t" by (simp add: hc ft)
  have sx: "fadd (Fin 0) (Fin t) = Fin t" by (simp add: ft)
  have "ssqdm_x (acc_step (Fin c, Fin c)
      \<lparr>nobs = 1, meanx = Fin 0, meany = Fin 0, ssqdm_x = Fin 0, ssqdm_y = Fin 0, covxy = Fin 0\<rparr>)
      = Fin t"
    unfolding acc_step_def Let_def
    by (simp only: fst_conv snd_conv isfinite.simps simp_thms if_True acc.simps inv dx m mx d2 p sx)
  then show ?thesis
    by (simp add: s1 fc[unfolded c_def] c_def t_def)
qed

lemma nancorr_pair_underflow:
  assumes s: "ssqdm_x (fold acc_step (zip xs xs) acc_init) = Fin t"
    and u: "\<bar>t * t\<bar> \<le> 2 powi (- 1075)"
  shows "nancorr_pair clipped minp xs xs = NaN"
proof -
  let ?a = "fold acc_step (zip xs xs) acc_init"
  have "diag_inv ?a" by (intro diag_inv_fold diag_inv_init)
  with s have sy: "ssqdm_y ?a = Fin t" by (simp add: diag_inv_def)
  have "to_f64 (t * t) = Fin 0" using u by (rule to_f64_underflow)
  then have "fsqrt (fmul (ssqdm_x ?a) (ssqdm_y ?a)) = Fin 0" by (simp add: s sy)
  then show ?thesis by (simp add: nancorr_pair_def Let_def fne_def)
qed

lemma paired_columns:
  "series (sales_columns ! 0) paired_view = [0, 2]"
  by code_simp

lemma tiny_columns:
  "map (\<lambda>a. series (sales_columns ! a) tiny_view) [0..<5] = replicate 5 [0, 2 powi (- 300)]"
  by code_simp

lemma tiny_column:
  assumes "a < 5"
  shows "series (sales_columns ! a) tiny_view = [0, 2 powi (- 300)]"
proof -
  have "map (\<lambda>a. series (sales_columns ! a) tiny_view) [0..<5] ! a = replicate 5 [0, 2 powi (- 300)] ! a"
    by (simp only: tiny_columns)
  then show ?thesis using assms by (simp del: power_int_numeral_neg_numeral upt_Suc)
qed

lemma tiny_diag:
  assumes "a < 5"
  shows "corr clipped tiny_view ! a ! a = NaN"
proof -
  have m: "mat_column tiny_view a = [to_f64 0, to_f64 (2 powi (- 300))]"
    by (simp add: mat_column_def tiny_column[OF assms] del: power_int_numeral_neg_numeral to_f64_zero)
  have p: "ssqdm_x (fold acc_step (zip (mat_column tiny_view a) (mat_column tiny_view a)) acc_init)
      = Fin (2 powi (- 601))"
    unfolding m using pass_zero_pow2[of "- 300"] by simp
  have "(2::real) powi (- 601) * 2 powi (- 601) = 2 powi (- 1202)"
    by (subst power_int_add[symmetric]) simp_all
  moreover have "(2::real) powi (- 1202) \<le> 2 powi (- 1075)"
    by (intro power_int_increasing) auto
  ultimately have "\<bar>(2::real) powi (- 601) * 2 powi (- 601)\<bar> \<le> 2 powi (- 1075)" by simp
  with p have "nancorr_pair clipped 1 (mat_column tiny_view a) (mat_column tiny_view a) = NaN"
    by (rule nancorr_pair_underflow)
  then show ?thesis using assms by (simp add: corr_nth corr_entry_def)
qed

text \<open>
  C6, as the code has it. For every view the correlation matrix is computed without an
  error and is symmetric. If the view has fewer than 2 rows or a column has zero
  variance, every entry in the row and in the column of that column is NaN. The diagonal
  entry of a column is exactly 1 whenever the sum of squared deviations that the pass
  accumulates for the column lies between \<open>2^-511\<close> and \<open>2^511\<close>, so that its square
  neither underflows nor overflows in double precision. This holds with and without the
  clipping of the quotient.
\<close>

theorem corr_symmetric_nan_unit_diagonal:
  "(\<forall>a<5. \<forall>b<5. corr clipped view ! a ! b = corr clipped view ! b ! a)
   \<and> (\<forall>a<5. \<forall>b<5.
         length view < 2 \<or> variance (series (sales_columns ! a) view) = 0 \<longrightarrow>
         corr clipped view ! a ! b = NaN \<and> corr clipped view ! b ! a = NaN)
   \<and> (\<forall>a<5. \<forall>s.
         ssqdm view a = Fin s \<and> 2 powi (- 511) \<le> s \<and> s \<le> 2 powi 511 \<longrightarrow>
         corr clipped view ! a ! a = Fin 1)"
proof (intro conjI allI impI)
  fix a b :: nat assume "a < 5" "b < 5"
  then show "corr clipped view ! a ! b = corr clipped view ! b ! a"
    by (simp only: corr_nth corr_entry_sym[of clipped view a b])
next
  fix a b :: nat
  assume ab: "a < 5" "b < 5"
    and h: "length view < 2 \<or> variance (series (sales_columns ! a) view) = 0"
  from corr_entry_const[OF h] have "corr_entry clipped view a b = NaN" .
  then show "corr clipped view ! a ! b = NaN" using ab by (simp only: corr_nth)
  from corr_entry_const[OF h] have "corr_entry clipped view b a = NaN"
    by (simp only: corr_entry_sym[of clipped view b a])
  then show "corr clipped view ! b ! a = NaN" using ab by (simp only: corr_nth)
next
  fix a :: nat and s :: real
  assume a: "a < 5" and h: "ssqdm view a = Fin s \<and> 2 powi (- 511) \<le> s \<and> s \<le> 2 powi 511"
  then have "corr_entry clipped view a a = Fin 1" by (intro corr_entry_diag) auto
  then show "corr clipped view ! a ! a = Fin 1" using a by (simp only: corr_nth)
qed

theorem corr_symmetric_nan_unit_diagonal_witness:
  "corr True paired_view ! 0 ! 4 = corr True paired_view ! 4 ! 0
   \<and> variance (series (sales_columns ! 1) racing_view) = 0
   \<and> corr True racing_view ! 1 ! 2 = NaN
   \<and> corr True racing_view ! 2 ! 1 = NaN
   \<and> length (filtered_df example_df (1980, 2020) ''Wii'' ''Sports'') < 2
   \<and> corr False (filtered_df example_df (1980, 2020) ''Wii'' ''Sports'') ! 0 ! 0 = NaN
   \<and> ssqdm paired_view 0 = Fin 2
   \<and> 2 powi (- 511) \<le> (2::real)
   \<and> (2::real) \<le> 2 powi 511
   \<and> corr True paired_view ! 0 ! 0 = Fin 1"
proof -
  let ?sports = "filtered_df example_df (1980, 2020) ''Wii'' ''Sports''"
  have v: "variance (series (sales_columns ! 1) racing_view) = 0" by code_simp
  have l: "length ?sports < 2" by code_simp
  have s: "ssqdm paired_view 0 = Fin 2"
    using pass_zero_pow2[of 1] by (simp add: ssqdm_def mat_column_def paired_columns)
  have r: "2 powi (- 511) \<le> (2::real)" "(2::real) \<le> 2 powi 511" by simp_all
  note pair = corr_symmetric_nan_unit_diagonal[of True paired_view]
  note racing = corr_symmetric_nan_unit_diagonal[of True racing_view]
  note sports = corr_symmetric_nan_unit_diagonal[of False ?sports]
  have 1: "corr True paired_view ! 0 ! 4 = corr True paired_view ! 4 ! 0" using pair by simp
  have 2: "corr True racing_view ! 1 ! 2 = NaN" "corr True racing_view ! 2 ! 1 = NaN"
    using racing v by simp_all
  have 3: "corr False ?sports ! 0 ! 0 = NaN" using sports l by simp
  have 4: "corr True paired_view ! 0 ! 0 = Fin 1" using pair s r by simp
  from v l s r 1 2 3 4 show ?thesis by simp
qed

text \<open>
  C6, as stated, promises a unit diagonal for every view of at least 2 rows in which each
  column has nonzero variance. In \<open>tiny_view\<close> every column holds 0 and \<open>2^-300\<close>; its
  variance is not 0, but the sum of squared deviations is \<open>2^-601\<close>, and the square of
  that underflows to 0 in double precision. The divisor is 0, and every diagonal entry
  is NaN.
\<close>

theorem corr_diagonal_counterexample:
  "length tiny_view = 2
   \<and> variance (series NA_Sales tiny_view) \<noteq> 0
   \<and> variance (series EU_Sales tiny_view) \<noteq> 0
   \<and> variance (series JP_Sales tiny_view) \<noteq> 0
   \<and> variance (series Other_Sales tiny_view) \<noteq> 0
   \<and> variance (series Global_Sales tiny_view) \<noteq> 0
   \<and> map (\<lambda>a. corr True tiny_view ! a ! a) [0..<5] = [NaN, NaN, NaN, NaN, NaN]
   \<and> map (\<lambda>a. corr False tiny_view ! a ! a) [0..<5] = [NaN, NaN, NaN, NaN, NaN]"
proof -
  have l: "length tiny_view = 2" by code_simp
  have "variance [0, 2 powi (- 300)] \<noteq> 0"
    using variance_zero_iff[of "[0, 2 powi (- 300)]"] by simp
  then have "variance (series (sales_columns ! a) tiny_view) \<noteq> 0" if "a < 5" for a
    using that by (simp only: tiny_column simp_thms)
  from this[of 0] this[of 1] this[of 2] this[of 3] this[of 4]
  have v: "variance (series NA_Sales tiny_view) \<noteq> 0"
    "variance (series EU_Sales tiny_view) \<noteq> 0"
    "variance (series JP_Sales tiny_view) \<noteq> 0"
    "variance (series Other_Sales tiny_view) \<noteq> 0"
    "variance (series Global_Sales tiny_view) \<noteq> 0"
    by (simp_all add: sales_columns_def)
  have u: "[0..<5] = [0, 1, 2, 3, 4]" by code_simp
  have d: "map (\<lambda>a. corr c tiny_view ! a ! a) [0..<5] = [NaN, NaN, NaN, NaN, NaN]" for c
    unfolding u by (simp add: tiny_diag)
  from l v d show ?thesis by simp
qed

end
